theory Spec2Isabelle
  imports Complex_Main "HOL-Library.Word" "HOL-Library.Multiset"
begin

unbundle bit_operations_syntax

section \<open>The batch-learn training driver (src/commands/model.cpp)\<close>

text \<open>
  A shallow embedding of \<^verbatim>\<open>model.cpp\<close>: the batch planner, the mask generator, the
  three batch runners and the epoch orchestrator.

  Conventions of the embedding.
  \<^item> \<^verbatim>\<open>uint64_t\<close> and \<^verbatim>\<open>uint32_t\<close> are \<open>64 word\<close> and \<open>32 word\<close>: addition wraps, as in
    the source. \<^verbatim>\<open>index.n_examples\<close> is 64 bits wide, since the source's own
    \<^verbatim>\<open>min(batch_start + batch_size, index.n_examples)\<close> needs both arguments of one type.
  \<^item> \<^verbatim>\<open>float\<close> and \<^verbatim>\<open>double\<close> are idealised as \<open>real\<close>: rounding, infinities and NaN
    are not modelled (division by zero is \<open>0\<close> in HOL, not an infinity).
  \<^item> A \<^verbatim>\<open>uint64_t *\<close> mask is the memory it points to, \<open>nat \<Rightarrow> 64 word\<close>, addressed in
    words from the pointer. For the array \<^verbatim>\<open>dropout_mask[dropout_mask_max_size]\<close> the cells
    \<open>0 ..< 4000\<close> are the array and the cells from \<open>4000\<close> on are whatever lies behind
    it on the stack.
  \<^item> An exception is the outcome \<open>Throws\<close>; a loop that never ends is \<open>Diverges\<close>.
  \<^item> What the program prints, reads and writes, and every call into the external
    model, is appended to a trace of events.
  \<^item> The OpenMP loops run their iterations one after the other in index order; which
    worker runs which iteration is a parameter (\<open>omp_schedule\<close>), and the two reduction
    variables are summed per worker and then over the workers. Interleavings inside an
    iteration and the unsynchronised writes to the model are not modelled.
\<close>

subsection \<open>Data\<close>

type_synonym u64 = "64 word"
type_synonym u32 = "32 word"
type_synonym mask_mem = "nat \<Rightarrow> u64"

datatype error = RuntimeError string

text \<open>
  \<^verbatim>\<open>batch_learn::feature\<close> and \<^verbatim>\<open>batch_learn::file_index\<close> are declared outside
  \<^verbatim>\<open>model.cpp\<close>; the fields are the ones the source reads.
\<close>

record feature =
  findex :: u32
  fvalue :: real

record file_index =
  n_examples :: u64
  n_fields :: u32
  n_indices :: u32
  n_index_bits :: u32
  labels :: "real list"
  offsets :: "u64 list"

record batch_learn_dataset =
  index :: file_index
  data_file_name :: string

record model_command =
  train_file_name :: string
  val_file_name :: string
  test_file_name :: string
  pred_file_name :: string
  n_epochs :: nat
  n_threads :: nat
  seed :: nat

datatype event =
    EvLoadIndex string
  | EvEpoch nat
  | EvTrain nat
  | EvEvaluate
  | EvPredictPass
  | EvReadBatch string u64 u64
  | EvTrainStep u64 "feature list" real mask_mem real real real
  | EvScore u64 "feature list" real mask_mem real real
  | EvReport nat real
  | EvReportCount nat
  | EvOpenOutput string
  | EvWrite real

text \<open>
  The events, in the order of the datatype: the index file named is read (printed as
  \<^verbatim>\<open>Loading ...\<close>); \<^verbatim>\<open>Epoch n...\<close> is printed; \<^verbatim>\<open>train_on_dataset\<close> is entered (it prints
  \<^verbatim>\<open>Training...\<close>) with this \<^verbatim>\<open>dropout_prob_log\<close>; \<^verbatim>\<open>evaluate_on_dataset\<close> and
  \<^verbatim>\<open>predict_on_dataset\<close> are entered; \<^verbatim>\<open>read_batch\<close> is called on a file and an offset range;
  one example of training: \<^verbatim>\<open>predict\<close> was called on example \<open>ei\<close> with these features,
  norm, mask memory and dropout multiplier and returned the score, then \<^verbatim>\<open>update\<close> was
  called with the same features, norm, mask and multiplier and the gradient scale (the
  last field); one example of evaluation or prediction: \<^verbatim>\<open>predict\<close> was called with these
  arguments and returned the score; the summary line with the count and the mean loss;
  the summary line of prediction with the count; the output file is created; a
  probability is written to it.
\<close>

text \<open>
  The collaborators outside \<^verbatim>\<open>model.cpp\<close>: the dataset reader, the model, the shuffle
  engine \<^verbatim>\<open>rnd\<close> (the stream of its draws for each seed), the hardware entropy source
  (the outcome of each \<^verbatim>\<open>_rdrand64_step\<close>, \<open>None\<close> when the instruction fails), the
  content of an uninitialised stack array, and the OpenMP schedule.
\<close>

record 'm env =
  read_index :: "string \<Rightarrow> file_index"
  read_batch :: "string \<Rightarrow> u64 \<Rightarrow> u64 \<Rightarrow> feature list"
  create_model :: "u32 \<Rightarrow> u32 \<Rightarrow> u32 \<Rightarrow> 'm"
  get_dropout_mask_size :: "'m \<Rightarrow> feature list \<Rightarrow> nat"
  predict :: "'m \<Rightarrow> feature list \<Rightarrow> real \<Rightarrow> mask_mem \<Rightarrow> real \<Rightarrow> real"
  update :: "'m \<Rightarrow> feature list \<Rightarrow> real \<Rightarrow> real \<Rightarrow> mask_mem \<Rightarrow> real \<Rightarrow> 'm"
  engine :: "nat \<Rightarrow> nat \<Rightarrow> nat"
  rdrand64_step :: "nat \<Rightarrow> u64 option"
  stack_garbage :: mask_mem
  omp_schedule :: "nat \<Rightarrow> nat"

text \<open>The process state: the OpenMP thread count, the engine \<^verbatim>\<open>rnd\<close>, the number of
  hardware draws made so far, and the trace.\<close>

record sys =
  omp_threads :: nat
  rnd_seed :: nat
  rnd_pos :: nat
  hw_pos :: nat
  trace :: "event list"

datatype 'a outcome = Returns 'a sys | Throws error sys | Diverges

definition emit :: "event \<Rightarrow> sys \<Rightarrow> sys" where
  "emit ev w = w\<lparr>trace := trace w @ [ev]\<rparr>"

subsection \<open>Batch configuration\<close>

definition batch_size :: u64 where
  "batch_size = 20000"

definition mini_batch_size :: u64 where
  "mini_batch_size = 24"

definition dropout_mask_max_size :: nat where
  "dropout_mask_max_size = 4000"

definition min_T :: "'a::linorder \<Rightarrow> 'a \<Rightarrow> 'a" where
  "min_T a b = (if a < b then a else b)"

subsection \<open>The batch planner\<close>

text \<open>\<^verbatim>\<open>std::shuffle\<close> is the C++ library's: it is modelled as the exchange loop that swaps
  position \<open>i\<close> with a drawn position in \<open>0..i\<close>, one engine draw for each \<open>i\<close>.\<close>

definition swap_elems :: "nat \<Rightarrow> nat \<Rightarrow> 'a list \<Rightarrow> 'a list" where
  "swap_elems i j xs = xs[i := xs ! j, j := xs ! i]"

fun shuffle_steps :: "(nat \<Rightarrow> nat) \<Rightarrow> nat list \<Rightarrow> 'a list \<Rightarrow> nat \<Rightarrow> 'a list \<times> nat" where
  "shuffle_steps g [] xs pos = (xs, pos)"
| "shuffle_steps g (i # rest) xs pos =
     shuffle_steps g rest (swap_elems i (g pos mod (i + 1)) xs) (pos + 1)"

definition std_shuffle :: "'m env \<Rightarrow> 'a list \<Rightarrow> sys \<Rightarrow> 'a list \<times> sys" where
  "std_shuffle e xs w =
     (case shuffle_steps (engine e (rnd_seed w)) [1..<length xs] xs (rnd_pos w) of
        (ys, p) \<Rightarrow> (ys, w\<lparr>rnd_pos := p\<rparr>))"

text \<open>The loop of \<^verbatim>\<open>generate_batches\<close>. \<open>None\<close> is a loop that never ends.\<close>

partial_function (option) batches_loop ::
  "u64 \<Rightarrow> u64 \<Rightarrow> (u64 \<times> u64) list \<Rightarrow> (u64 \<times> u64) list option" where
  "batches_loop n batch_start batches =
     (if batch_start < n
      then batches_loop n (batch_start + batch_size)
             (batches @ [(batch_start, min_T (batch_start + batch_size) n)])
      else Some batches)"

declare batches_loop.simps [code]

definition generate_batches ::
  "'m env \<Rightarrow> batch_learn_dataset \<Rightarrow> bool \<Rightarrow> sys \<Rightarrow> ((u64 \<times> u64) list \<times> sys) option" where
  "generate_batches e ds shuffle w =
     (case batches_loop (n_examples (index ds)) 0 [] of
        None \<Rightarrow> None
      | Some batches \<Rightarrow> Some (if shuffle then std_shuffle e batches w else (batches, w)))"

partial_function (option) mini_batches_loop ::
  "u64 \<Rightarrow> u64 \<Rightarrow> (u64 \<times> u64) list \<Rightarrow> (u64 \<times> u64) list option" where
  "mini_batches_loop end_index mini_batch_start batches =
     (if mini_batch_start < end_index
      then mini_batches_loop end_index (mini_batch_start + mini_batch_size)
             (batches @ [(mini_batch_start, min_T (mini_batch_start + mini_batch_size) end_index)])
      else Some batches)"

declare mini_batches_loop.simps [code]

definition generate_mini_batches :: "u64 \<Rightarrow> u64 \<Rightarrow> (u64 \<times> u64) list option" where
  "generate_mini_batches begin_index end_index = mini_batches_loop end_index begin_index []"

subsection \<open>The mask generator\<close>

text \<open>\<^verbatim>\<open>memset(mask, c, n)\<close> on a word-aligned pointer with \<open>n\<close> a multiple of 8: the first
  \<open>n div 8\<close> words become the byte \<open>c\<close> repeated eight times.\<close>

definition memset :: "mask_mem \<Rightarrow> int \<Rightarrow> nat \<Rightarrow> mask_mem" where
  "memset msk c n =
     (\<lambda>a. if a < n div 8 then word_of_int (c mod 256) * 0x0101010101010101 else msk a)"

text \<open>\<^verbatim>\<open>size * sizeof(uint64_t)\<close>: the \<^verbatim>\<open>int\<close> is converted to \<^verbatim>\<open>size_t\<close> and multiplied
  by 8, modulo \<open>2^64\<close>.\<close>

definition byte_count :: "int \<Rightarrow> nat" where
  "byte_count sz = nat ((sz * 8) mod 2 ^ 64)"

function fill_word_loop ::
  "(nat \<Rightarrow> u64 option) \<Rightarrow> mask_mem \<Rightarrow> int \<Rightarrow> int \<Rightarrow> int \<Rightarrow> nat \<Rightarrow> (error + mask_mem) \<times> nat" where
  "fill_word_loop hw msk p i zero_prob_log pos =
     (if i < zero_prob_log
      then (case hw pos of
              None \<Rightarrow> (Inl (RuntimeError ''Error generating random number!''), pos + 1)
            | Some v \<Rightarrow>
                fill_word_loop hw (msk(nat p := msk (nat p) OR v)) p (i + 1) zero_prob_log
                  (pos + 1))
      else (Inr msk, pos))"
  by pat_completeness auto
termination
  by (relation "measure (\<lambda>(hw, msk, p, i, zero_prob_log, pos). nat (zero_prob_log - i))") auto

function fill_mask_loop ::
  "(nat \<Rightarrow> u64 option) \<Rightarrow> mask_mem \<Rightarrow> int \<Rightarrow> int \<Rightarrow> int \<Rightarrow> nat \<Rightarrow> (error + mask_mem) \<times> nat" where
  "fill_mask_loop hw msk p sz zero_prob_log pos =
     (if p < sz
      then (case fill_word_loop hw msk p 0 zero_prob_log pos of
              (Inl err, pos') \<Rightarrow> (Inl err, pos')
            | (Inr msk', pos') \<Rightarrow> fill_mask_loop hw msk' (p + 1) sz zero_prob_log pos')
      else (Inr msk, pos))"
  by pat_completeness auto
termination
  by (relation "measure (\<lambda>(hw, msk, p, sz, zero_prob_log, pos). nat (sz - p))") auto

declare fill_word_loop.simps [simp del]
declare fill_mask_loop.simps [simp del]

definition fill_mask_rand ::
  "(nat \<Rightarrow> u64 option) \<Rightarrow> mask_mem \<Rightarrow> int \<Rightarrow> int \<Rightarrow> nat \<Rightarrow> (error + mask_mem) \<times> nat" where
  "fill_mask_rand hw msk sz zero_prob_log pos =
     fill_mask_loop hw (memset msk 0 (byte_count sz)) 0 sz zero_prob_log pos"

definition fill_mask_ones :: "mask_mem \<Rightarrow> int \<Rightarrow> mask_mem" where
  "fill_mask_ones msk sz = memset msk 0xFF (byte_count sz)"

definition compute_norm :: "feature list \<Rightarrow> real" where
  "compute_norm fs = fold (\<lambda>f acc. acc + fvalue f * fvalue f) fs 0"

subsection \<open>Reading a dataset\<close>

text \<open>The constructor of \<^verbatim>\<open>batch_learn_dataset\<close>.\<close>

definition load_dataset :: "'m env \<Rightarrow> string \<Rightarrow> sys \<Rightarrow> batch_learn_dataset \<times> sys" where
  "load_dataset e file_name w =
     (\<lparr>index = read_index e (file_name @ ''.index''), data_file_name = file_name @ ''.data''\<rparr>,
      emit (EvLoadIndex (file_name @ ''.index'')) w)"

text \<open>The features between the pointers \<^verbatim>\<open>data + a\<close> and \<^verbatim>\<open>data + b\<close>.\<close>

definition slice :: "'a list \<Rightarrow> u64 \<Rightarrow> u64 \<Rightarrow> 'a list" where
  "slice xs a b = take (unat b - unat a) (drop (unat a) xs)"

definition example_features ::
  "batch_learn_dataset \<Rightarrow> feature list \<Rightarrow> u64 \<Rightarrow> u64 \<Rightarrow> feature list" where
  "example_features ds batch_features batch_start_offset ei =
     (let start_offset = offsets (index ds) ! unat ei - batch_start_offset;
          end_offset = offsets (index ds) ! unat (ei + 1) - batch_start_offset
      in slice batch_features start_offset end_offset)"

subsection \<open>The OpenMP reduction\<close>

text \<open>
  \<^verbatim>\<open>reduction(+: x)\<close> over a loop whose iteration \<open>bi\<close> adds \<open>cs ! bi\<close> to \<open>x\<close>: every
  worker sums the iterations it ran into its private copy, which starts at zero, and the
  private copies are added up. Iteration \<open>bi\<close> is run by worker
  \<open>sched bi mod n\<close> of the \<open>n\<close> workers.
\<close>

definition omp_reduction :: "nat \<Rightarrow> (nat \<Rightarrow> nat) \<Rightarrow> 'a::comm_monoid_add list \<Rightarrow> 'a" where
  "omp_reduction n sched cs =
     sum_list (map (\<lambda>t. sum_list (map (\<lambda>bi. cs ! bi)
                                  (filter (\<lambda>bi. sched bi mod n = t) [0..<length cs])))
                   [0..<n])"

subsection \<open>Training\<close>

text \<open>\<^verbatim>\<open>1 << dropout_prob_log\<close> in \<^verbatim>\<open>int\<close>. A shift by 32 or more is undefined in C++; the
  theorems below are stated for shifts below 31.\<close>

definition shl_one :: "nat \<Rightarrow> int" where
  "shl_one k = sint (push_bit k (1 :: 32 word))"

definition dropout_mult_of :: "nat \<Rightarrow> real" where
  "dropout_mult_of dropout_prob_log =
     real_of_int (shl_one dropout_prob_log) / (real_of_int (shl_one dropout_prob_log) - 1)"

text \<open>The body of the loop over the examples of a mini-batch (lines 131 to 147). It
  returns the loss of the example, the model and the mask memory.\<close>

definition train_example ::
  "'m env \<Rightarrow> batch_learn_dataset \<Rightarrow> nat \<Rightarrow> real \<Rightarrow> feature list \<Rightarrow> u64 \<Rightarrow> u64 \<Rightarrow>
   'm \<Rightarrow> mask_mem \<Rightarrow> sys \<Rightarrow> (real \<times> 'm \<times> mask_mem) outcome" where
  "train_example e ds dropout_prob_log dropout_mult batch_features batch_start_offset ei
     m dropout_mask w =
     (let y = labels (index ds) ! unat ei;
          fs = example_features ds batch_features batch_start_offset ei;
          dropout_mask_size = get_dropout_mask_size e m fs
      in case fill_mask_rand (rdrand64_step e) dropout_mask
                (int ((dropout_mask_size + 63) div 64)) (int dropout_prob_log) (hw_pos w) of
           (Inl err, pos) \<Rightarrow> Throws err (w\<lparr>hw_pos := pos\<rparr>)
         | (Inr msk, pos) \<Rightarrow>
             (let nrm = compute_norm fs;
                  t = predict e m fs nrm msk dropout_mult;
                  expnyt = exp (- y * t);
                  g = - y * expnyt / (1 + expnyt);
                  m' = update e m fs nrm g msk dropout_mult
              in Returns (ln (1 + exp (- y * t)), m', msk)
                   (emit (EvTrainStep ei fs nrm msk dropout_mult t g) (w\<lparr>hw_pos := pos\<rparr>))))"

function train_examples ::
  "'m env \<Rightarrow> batch_learn_dataset \<Rightarrow> nat \<Rightarrow> real \<Rightarrow> feature list \<Rightarrow> u64 \<Rightarrow> u64 \<Rightarrow> u64 \<Rightarrow>
   real \<Rightarrow> 'm \<Rightarrow> mask_mem \<Rightarrow> sys \<Rightarrow> (real \<times> 'm \<times> mask_mem) outcome" where
  "train_examples e ds k dmult batch_features batch_start_offset ei ei_end loss m msk w =
     (if ei < ei_end
      then (case train_example e ds k dmult batch_features batch_start_offset ei m msk w of
              Returns r w' \<Rightarrow>
                (case r of (l, m', msk') \<Rightarrow>
                   train_examples e ds k dmult batch_features batch_start_offset (ei + 1) ei_end
                     (loss + l) m' msk' w')
            | Throws err w' \<Rightarrow> Throws err w'
            | Diverges \<Rightarrow> Diverges)
      else Returns (loss, m, msk) w)"
  by pat_completeness auto
termination
proof (relation "measure (\<lambda>(e, ds, k, dmult, bf, bso, ei, ei_end, rest). unat ei_end - unat ei)")
  show "wf (measure (\<lambda>(e :: 'a env, ds :: batch_learn_dataset, k :: nat, dmult :: real,
      bf :: feature list, bso :: u64, ei :: u64, ei_end :: u64,
      rest :: real \<times> 'a \<times> mask_mem \<times> sys). unat ei_end - unat ei))"
    by simp
next
  fix e :: "'a env" and ds :: batch_learn_dataset and k :: nat and dmult :: real
    and batch_features :: "feature list" and batch_start_offset ei ei_end :: u64
    and loss :: real and m :: 'a and msk :: mask_mem and w :: sys
    and x1 :: "real \<times> 'a \<times> mask_mem" and x2 :: sys and x1a :: real
    and x2a :: "'a \<times> mask_mem" and x1b :: 'a and x2b :: mask_mem
  assume "ei < ei_end"
  then have "unat ei < unat ei_end" by (simp add: word_less_nat_alt)
  moreover from this have "unat (ei + 1) = unat ei + 1"
    using unsigned_less [of ei_end, where ?'a = nat] by (simp add: unat_word_ariths)
  ultimately show "((e, ds, k, dmult, batch_features, batch_start_offset, ei + 1, ei_end,
      loss + x1a, x1b, x2b, x2),
      (e, ds, k, dmult, batch_features, batch_start_offset, ei, ei_end, loss, m, msk, w))
    \<in> measure (\<lambda>(e, ds, k, dmult, bf, bso, ei, ei_end, rest). unat ei_end - unat ei)"
    by simp
qed

declare train_examples.simps [simp del]

fun train_mini_batches ::
  "'m env \<Rightarrow> batch_learn_dataset \<Rightarrow> nat \<Rightarrow> real \<Rightarrow> feature list \<Rightarrow> u64 \<Rightarrow>
   (u64 \<times> u64) list \<Rightarrow> real \<Rightarrow> 'm \<Rightarrow> mask_mem \<Rightarrow> sys \<Rightarrow> (real \<times> 'm \<times> mask_mem) outcome" where
  "train_mini_batches e ds k dmult batch_features batch_start_offset [] loss m msk w =
     Returns (loss, m, msk) w"
| "train_mini_batches e ds k dmult batch_features batch_start_offset (mb # rest) loss m msk w =
     (case train_examples e ds k dmult batch_features batch_start_offset (fst mb) (snd mb)
             loss m msk w of
        Returns r w' \<Rightarrow>
          (case r of (loss', m', msk') \<Rightarrow>
             train_mini_batches e ds k dmult batch_features batch_start_offset rest
               loss' m' msk' w')
      | Throws err w' \<Rightarrow> Throws err w'
      | Diverges \<Rightarrow> Diverges)"

text \<open>The body of the parallel loop (lines 114 to 151) for one batch. It returns what the
  iteration adds to the reduction variables \<^verbatim>\<open>loss\<close> and \<^verbatim>\<open>cnt\<close>, and the model. The array
  \<^verbatim>\<open>dropout_mask\<close> is declared in the body and starts uninitialised.\<close>

definition train_batch ::
  "'m env \<Rightarrow> batch_learn_dataset \<Rightarrow> nat \<Rightarrow> real \<Rightarrow> u64 \<times> u64 \<Rightarrow> 'm \<Rightarrow> sys \<Rightarrow>
   ((real \<times> u64) \<times> 'm) outcome" where
  "train_batch e ds k dmult b m w =
     (let batch_start_index = fst b;
          batch_end_index = snd b;
          batch_start_offset = offsets (index ds) ! unat batch_start_index;
          batch_end_offset = offsets (index ds) ! unat batch_end_index
      in case generate_mini_batches batch_start_index batch_end_index of
           None \<Rightarrow> Diverges
         | Some mini_batches \<Rightarrow>
             (let batch_features =
                    read_batch e (data_file_name ds) batch_start_offset batch_end_offset;
                  w1 = emit (EvReadBatch (data_file_name ds) batch_start_offset batch_end_offset) w
              in case std_shuffle e mini_batches w1 of
                   (shuffled, w2) \<Rightarrow>
                     (case train_mini_batches e ds k dmult batch_features batch_start_offset
                             shuffled 0 m (stack_garbage e) w2 of
                        Returns r w3 \<Rightarrow>
                          (case r of (loss, m', msk') \<Rightarrow>
                             Returns ((loss, batch_end_index - batch_start_index), m') w3)
                      | Throws err w3 \<Rightarrow> Throws err w3
                      | Diverges \<Rightarrow> Diverges)))"

fun train_batches ::
  "'m env \<Rightarrow> batch_learn_dataset \<Rightarrow> nat \<Rightarrow> real \<Rightarrow> (u64 \<times> u64) list \<Rightarrow> 'm \<Rightarrow> sys \<Rightarrow>
   ((real \<times> u64) list \<times> 'm) outcome" where
  "train_batches e ds k dmult [] m w = Returns ([], m) w"
| "train_batches e ds k dmult (b # rest) m w =
     (case train_batch e ds k dmult b m w of
        Returns r w1 \<Rightarrow>
          (case r of (c, m1) \<Rightarrow>
             (case train_batches e ds k dmult rest m1 w1 of
                Returns r2 w2 \<Rightarrow> (case r2 of (cs, m2) \<Rightarrow> Returns (c # cs, m2) w2)
              | Throws err w2 \<Rightarrow> Throws err w2
              | Diverges \<Rightarrow> Diverges))
      | Throws err w1 \<Rightarrow> Throws err w1
      | Diverges \<Rightarrow> Diverges)"

definition train_on_dataset ::
  "'m env \<Rightarrow> 'm \<Rightarrow> batch_learn_dataset \<Rightarrow> nat \<Rightarrow> sys \<Rightarrow> (real \<times> 'm) outcome" where
  "train_on_dataset e m ds dropout_prob_log w =
     (let dropout_mult = dropout_mult_of dropout_prob_log;
          w1 = emit (EvTrain dropout_prob_log) w
      in case generate_batches e ds True w1 of
           None \<Rightarrow> Diverges
         | Some (batches, w2) \<Rightarrow>
             (case train_batches e ds dropout_prob_log dropout_mult batches m w2 of
                Returns r w3 \<Rightarrow>
                  (case r of (cs, m') \<Rightarrow>
                     (let loss = 0 + omp_reduction (omp_threads w3) (omp_schedule e) (map fst cs);
                          cnt = 0 + omp_reduction (omp_threads w3) (omp_schedule e) (map snd cs)
                      in Returns (loss, m')
                           (emit (EvReport (unat cnt) (loss / real (unat cnt))) w3)))
              | Throws err w3 \<Rightarrow> Throws err w3
              | Diverges \<Rightarrow> Diverges))"

subsection \<open>Evaluation\<close>

definition evaluate_example ::
  "'m env \<Rightarrow> 'm \<Rightarrow> batch_learn_dataset \<Rightarrow> mask_mem \<Rightarrow> feature list \<Rightarrow> u64 \<Rightarrow> u64 \<Rightarrow>
   real list \<Rightarrow> sys \<Rightarrow> real \<times> real list \<times> sys" where
  "evaluate_example e m ds dropout_mask batch_features batch_start_offset ei predictions w =
     (let y = labels (index ds) ! unat ei;
          fs = example_features ds batch_features batch_start_offset ei;
          nrm = compute_norm fs;
          t = predict e m fs nrm dropout_mask 1
      in (ln (1 + exp (- y * t)),
          predictions[unat ei := 1 / (1 + exp (- t))],
          emit (EvScore ei fs nrm dropout_mask 1 t) w))"

function evaluate_examples ::
  "'m env \<Rightarrow> 'm \<Rightarrow> batch_learn_dataset \<Rightarrow> mask_mem \<Rightarrow> feature list \<Rightarrow> u64 \<Rightarrow> u64 \<Rightarrow> u64 \<Rightarrow>
   real \<Rightarrow> real list \<Rightarrow> sys \<Rightarrow> real \<times> real list \<times> sys" where
  "evaluate_examples e m ds msk batch_features batch_start_offset ei ei_end loss preds w =
     (if ei < ei_end
      then (case evaluate_example e m ds msk batch_features batch_start_offset ei preds w of
              (l, preds', w') \<Rightarrow>
                evaluate_examples e m ds msk batch_features batch_start_offset (ei + 1) ei_end
                  (loss + l) preds' w')
      else (loss, preds, w))"
  by pat_completeness auto
termination
proof (relation "measure (\<lambda>(e, m, ds, msk, bf, bso, ei, ei_end, rest). unat ei_end - unat ei)")
  show "wf (measure (\<lambda>(e :: 'a env, m :: 'a, ds :: batch_learn_dataset, msk :: mask_mem,
      bf :: feature list, bso :: u64, ei :: u64, ei_end :: u64,
      rest :: real \<times> real list \<times> sys). unat ei_end - unat ei))"
    by simp
next
  fix e :: "'a env" and m :: 'a and ds :: batch_learn_dataset and msk :: mask_mem
    and batch_features :: "feature list" and batch_start_offset ei ei_end :: u64
    and loss :: real and preds :: "real list" and w :: sys
    and x :: "real \<times> real list \<times> sys" and x1 :: real and x2 :: "real list \<times> sys"
    and x1a :: "real list" and x2a :: sys
  assume "ei < ei_end"
  then have "unat ei < unat ei_end" by (simp add: word_less_nat_alt)
  moreover from this have "unat (ei + 1) = unat ei + 1"
    using unsigned_less [of ei_end, where ?'a = nat] by (simp add: unat_word_ariths)
  ultimately show "((e, m, ds, msk, batch_features, batch_start_offset, ei + 1, ei_end,
      loss + x1, x1a, x2a),
      (e, m, ds, msk, batch_features, batch_start_offset, ei, ei_end, loss, preds, w))
    \<in> measure (\<lambda>(e, m, ds, msk, bf, bso, ei, ei_end, rest). unat ei_end - unat ei)"
    by simp
qed

declare evaluate_examples.simps [simp del]

text \<open>The body of the parallel loop (lines 179 to 201) for one batch. \<^verbatim>\<open>cnt\<close> is a
  \<^verbatim>\<open>uint32_t\<close> here: the 64-bit difference is added to it and the sum is cut to 32 bits.\<close>

definition evaluate_batch ::
  "'m env \<Rightarrow> 'm \<Rightarrow> batch_learn_dataset \<Rightarrow> mask_mem \<Rightarrow> u64 \<times> u64 \<Rightarrow> real list \<Rightarrow> sys \<Rightarrow>
   (real \<times> u32) \<times> real list \<times> sys" where
  "evaluate_batch e m ds msk b predictions w =
     (let batch_start_index = fst b;
          batch_end_index = snd b;
          batch_start_offset = offsets (index ds) ! unat batch_start_index;
          batch_end_offset = offsets (index ds) ! unat batch_end_index;
          batch_features = read_batch e (data_file_name ds) batch_start_offset batch_end_offset;
          w1 = emit (EvReadBatch (data_file_name ds) batch_start_offset batch_end_offset) w
      in case evaluate_examples e m ds msk batch_features batch_start_offset
                batch_start_index batch_end_index 0 predictions w1 of
           (loss, preds, w2) \<Rightarrow>
             ((loss, ucast (batch_end_index - batch_start_index)), preds, w2))"

fun evaluate_batches ::
  "'m env \<Rightarrow> 'm \<Rightarrow> batch_learn_dataset \<Rightarrow> mask_mem \<Rightarrow> (u64 \<times> u64) list \<Rightarrow> real list \<Rightarrow> sys \<Rightarrow>
   (real \<times> u32) list \<times> real list \<times> sys" where
  "evaluate_batches e m ds msk [] preds w = ([], preds, w)"
| "evaluate_batches e m ds msk (b # rest) preds w =
     (case evaluate_batch e m ds msk b preds w of
        (c, preds1, w1) \<Rightarrow>
          (case evaluate_batches e m ds msk rest preds1 w1 of
             (cs, preds2, w2) \<Rightarrow> (c # cs, preds2, w2)))"

text \<open>\<^verbatim>\<open>evaluate_on_dataset\<close> returns the loss; the vector \<^verbatim>\<open>predictions\<close> is local to it, and
  is returned here beside the loss so that it can be observed. The loop counter \<^verbatim>\<open>bi\<close> is a
  \<^verbatim>\<open>uint32_t\<close> compared with a 64-bit size: from \<open>2^32\<close> batches on it wraps to zero
  before it reaches the size.\<close>

definition evaluate_on_dataset ::
  "'m env \<Rightarrow> 'm \<Rightarrow> batch_learn_dataset \<Rightarrow> sys \<Rightarrow> (real \<times> real list) outcome" where
  "evaluate_on_dataset e m ds w =
     (let w1 = emit EvEvaluate w
      in case generate_batches e ds False w1 of
           None \<Rightarrow> Diverges
         | Some (batches, w2) \<Rightarrow>
             (let dropout_mask = fill_mask_ones (stack_garbage e) (int dropout_mask_max_size);
                  predictions = replicate (unat (n_examples (index ds))) 0
              in if 2 ^ 32 \<le> length batches then Diverges
                 else (case evaluate_batches e m ds dropout_mask batches predictions w2 of
                         (cs, preds, w3) \<Rightarrow>
                           (let loss = 0 + omp_reduction (omp_threads w3) (omp_schedule e)
                                             (map fst cs);
                                cnt = 0 + omp_reduction (omp_threads w3) (omp_schedule e)
                                            (map snd cs)
                            in Returns (loss, preds)
                                 (emit (EvReport (unat cnt) (loss / real (unat cnt))) w3)))))"

subsection \<open>Prediction\<close>

definition predict_example ::
  "'m env \<Rightarrow> 'm \<Rightarrow> batch_learn_dataset \<Rightarrow> mask_mem \<Rightarrow> feature list \<Rightarrow> u64 \<Rightarrow> u64 \<Rightarrow> sys \<Rightarrow> sys" where
  "predict_example e m ds dropout_mask batch_features batch_start_offset ei w =
     (let fs = example_features ds batch_features batch_start_offset ei;
          nrm = compute_norm fs;
          t = predict e m fs nrm dropout_mask 1
      in emit (EvWrite (1 / (1 + exp (- t)))) (emit (EvScore ei fs nrm dropout_mask 1 t) w))"

function predict_examples ::
  "'m env \<Rightarrow> 'm \<Rightarrow> batch_learn_dataset \<Rightarrow> mask_mem \<Rightarrow> feature list \<Rightarrow> u64 \<Rightarrow> u64 \<Rightarrow> u64 \<Rightarrow>
   sys \<Rightarrow> sys" where
  "predict_examples e m ds msk batch_features batch_start_offset ei ei_end w =
     (if ei < ei_end
      then predict_examples e m ds msk batch_features batch_start_offset (ei + 1) ei_end
             (predict_example e m ds msk batch_features batch_start_offset ei w)
      else w)"
  by pat_completeness auto
termination
proof (relation "measure (\<lambda>(e, m, ds, msk, bf, bso, ei, ei_end, w). unat ei_end - unat ei)")
  show "wf (measure (\<lambda>(e :: 'a env, m :: 'a, ds :: batch_learn_dataset, msk :: mask_mem,
      bf :: feature list, bso :: u64, ei :: u64, ei_end :: u64, w :: sys).
      unat ei_end - unat ei))"
    by simp
next
  fix e :: "'a env" and m :: 'a and ds :: batch_learn_dataset and msk :: mask_mem
    and batch_features :: "feature list" and batch_start_offset ei ei_end :: u64 and w :: sys
  assume "ei < ei_end"
  then have "unat ei < unat ei_end" by (simp add: word_less_nat_alt)
  moreover from this have "unat (ei + 1) = unat ei + 1"
    using unsigned_less [of ei_end, where ?'a = nat] by (simp add: unat_word_ariths)
  ultimately show "((e, m, ds, msk, batch_features, batch_start_offset, ei + 1, ei_end,
      predict_example e m ds msk batch_features batch_start_offset ei w),
      (e, m, ds, msk, batch_features, batch_start_offset, ei, ei_end, w))
    \<in> measure (\<lambda>(e, m, ds, msk, bf, bso, ei, ei_end, w). unat ei_end - unat ei)"
    by simp
qed

declare predict_examples.simps [simp del]

fun predict_batches ::
  "'m env \<Rightarrow> 'm \<Rightarrow> batch_learn_dataset \<Rightarrow> mask_mem \<Rightarrow> (u64 \<times> u64) list \<Rightarrow> u64 \<Rightarrow> sys \<Rightarrow>
   u64 \<times> sys" where
  "predict_batches e m ds msk [] cnt w = (cnt, w)"
| "predict_batches e m ds msk (b # rest) cnt w =
     (let batch_start_index = fst b;
          batch_end_index = snd b;
          batch_start_offset = offsets (index ds) ! unat batch_start_index;
          batch_end_offset = offsets (index ds) ! unat batch_end_index;
          batch_features = read_batch e (data_file_name ds) batch_start_offset batch_end_offset;
          w1 = emit (EvReadBatch (data_file_name ds) batch_start_offset batch_end_offset) w;
          w2 = predict_examples e m ds msk batch_features batch_start_offset
                 batch_start_index batch_end_index w1
      in predict_batches e m ds msk rest (cnt + (batch_end_index - batch_start_index)) w2)"

definition predict_on_dataset ::
  "'m env \<Rightarrow> 'm \<Rightarrow> batch_learn_dataset \<Rightarrow> sys \<Rightarrow> unit outcome" where
  "predict_on_dataset e m ds w =
     (let w1 = emit EvPredictPass w
      in case generate_batches e ds False w1 of
           None \<Rightarrow> Diverges
         | Some (batches, w2) \<Rightarrow>
             (let dropout_mask = fill_mask_ones (stack_garbage e) (int dropout_mask_max_size)
              in case predict_batches e m ds dropout_mask batches 0 w2 of
                   (cnt, w3) \<Rightarrow> Returns () (emit (EvReportCount (unat cnt)) w3)))"

subsection \<open>The epoch orchestrator\<close>

fun train_epochs ::
  "'m env \<Rightarrow> batch_learn_dataset \<Rightarrow> nat \<Rightarrow> nat list \<Rightarrow> 'm \<Rightarrow> sys \<Rightarrow> 'm outcome" where
  "train_epochs e ds_train dropout_prob_log [] m w = Returns m w"
| "train_epochs e ds_train dropout_prob_log (epoch # rest) m w =
     (case train_on_dataset e m ds_train dropout_prob_log (emit (EvEpoch epoch) w) of
        Returns r w1 \<Rightarrow> train_epochs e ds_train dropout_prob_log rest (snd r) w1
      | Throws err w1 \<Rightarrow> Throws err w1
      | Diverges \<Rightarrow> Diverges)"

fun train_val_epochs ::
  "'m env \<Rightarrow> batch_learn_dataset \<Rightarrow> batch_learn_dataset \<Rightarrow> nat \<Rightarrow> nat list \<Rightarrow> 'm \<Rightarrow> sys \<Rightarrow>
   'm outcome" where
  "train_val_epochs e ds_train ds_val dropout_prob_log [] m w = Returns m w"
| "train_val_epochs e ds_train ds_val dropout_prob_log (epoch # rest) m w =
     (case train_on_dataset e m ds_train dropout_prob_log (emit (EvEpoch epoch) w) of
        Returns r w1 \<Rightarrow>
          (case evaluate_on_dataset e (snd r) ds_val w1 of
             Returns r2 w2 \<Rightarrow> train_val_epochs e ds_train ds_val dropout_prob_log rest (snd r) w2
           | Throws err w2 \<Rightarrow> Throws err w2
           | Diverges \<Rightarrow> Diverges)
      | Throws err w1 \<Rightarrow> Throws err w1
      | Diverges \<Rightarrow> Diverges)"

text \<open>Lines 262 to 280 of \<^verbatim>\<open>model_command::run\<close>: the epochs, with or without validation.\<close>

definition run_training ::
  "'m env \<Rightarrow> model_command \<Rightarrow> batch_learn_dataset \<Rightarrow> nat \<Rightarrow> 'm \<Rightarrow> sys \<Rightarrow> 'm outcome" where
  "run_training e cmd ds_train dropout_prob_log m w =
     (if val_file_name cmd = []
      then train_epochs e ds_train dropout_prob_log [0..<n_epochs cmd] m w
      else (case load_dataset e (val_file_name cmd) w of
              (ds_val, w1) \<Rightarrow>
                if n_index_bits (index ds_val) \<noteq> n_index_bits (index ds_train)
                then Throws (RuntimeError ''Mismatching index bits in train and val'') w1
                else train_val_epochs e ds_train ds_val dropout_prob_log [0..<n_epochs cmd] m w1))"

text \<open>Lines 282 to 291: the prediction pass.\<close>

definition run_prediction ::
  "'m env \<Rightarrow> model_command \<Rightarrow> batch_learn_dataset \<Rightarrow> 'm \<Rightarrow> sys \<Rightarrow> unit outcome" where
  "run_prediction e cmd ds_train m w =
     (if test_file_name cmd \<noteq> [] \<and> pred_file_name cmd \<noteq> []
      then (case load_dataset e (test_file_name cmd) w of
              (ds_test, w1) \<Rightarrow>
                if n_index_bits (index ds_test) \<noteq> n_index_bits (index ds_train)
                then Throws (RuntimeError ''Mismatching index bits in train and test'') w1
                else predict_on_dataset e m ds_test (emit (EvOpenOutput (pred_file_name cmd)) w1))
      else Returns () w)"

definition run :: "'m env \<Rightarrow> model_command \<Rightarrow> sys \<Rightarrow> int outcome" where
  "run e cmd w =
     (let w0 = w\<lparr>omp_threads := n_threads cmd, rnd_seed := seed cmd, rnd_pos := 0\<rparr>;
          dropout_prob_log = 1
      in case load_dataset e (train_file_name cmd) w0 of
           (ds_train, w1) \<Rightarrow>
             (let model = create_model e (n_fields (index ds_train)) (n_indices (index ds_train))
                            (n_index_bits (index ds_train))
              in case run_training e cmd ds_train dropout_prob_log model w1 of
                   Returns m w2 \<Rightarrow>
                     (case run_prediction e cmd ds_train m w2 of
                        Returns u w3 \<Rightarrow> Returns 0 w3
                      | Throws err w3 \<Rightarrow> Throws err w3
                      | Diverges \<Rightarrow> Diverges)
                 | Throws err w2 \<Rightarrow> Throws err w2
                 | Diverges \<Rightarrow> Diverges))"

section \<open>Specification functions\<close>

text \<open>The plan of a range \<open>[lo, hi)\<close> cut into pieces of \<open>cap\<close>, over unbounded naturals.\<close>

function ranges :: "nat \<Rightarrow> nat \<Rightarrow> nat \<Rightarrow> (nat \<times> nat) list" where
  "ranges cap lo hi =
     (if lo < hi \<and> 0 < cap then (lo, min (lo + cap) hi) # ranges cap (lo + cap) hi else [])"
  by pat_completeness auto
termination
  by (relation "measure (\<lambda>(cap, lo, hi). hi - lo)") auto

declare ranges.simps [simp del]

definition to_u64 :: "nat \<times> nat \<Rightarrow> u64 \<times> u64" where
  "to_u64 r = (word_of_nat (fst r), word_of_nat (snd r))"

definition of_u64 :: "u64 \<times> u64 \<Rightarrow> nat \<times> nat" where
  "of_u64 b = (unat (fst b), unat (snd b))"

text \<open>The ranges are non-empty, the first starts at \<open>lo\<close>, each next one starts where the one
  before it ends, and the last ends at \<open>hi\<close>.\<close>

fun contiguous_from :: "nat \<Rightarrow> nat \<Rightarrow> (nat \<times> nat) list \<Rightarrow> bool" where
  "contiguous_from lo hi [] = (lo = hi)"
| "contiguous_from lo hi (r # rs) = (fst r = lo \<and> fst r < snd r \<and> contiguous_from (snd r) hi rs)"

text \<open>Every range but the last has exactly \<open>cap\<close> elements, the last at most \<open>cap\<close>.\<close>

fun full_but_last :: "nat \<Rightarrow> (nat \<times> nat) list \<Rightarrow> bool" where
  "full_but_last cap [] = True"
| "full_but_last cap [r] = (snd r - fst r \<le> cap)"
| "full_but_last cap (r # r' # rs) = (snd r - fst r = cap \<and> full_but_last cap (r' # rs))"


subsection \<open>A small instance\<close>

text \<open>A dataset index of three examples with the labels \<open>+1, -1, +1\<close>, a model that counts
  its updates and scores every example \<open>0\<close>, an entropy source that always delivers, and a
  reader that knows two files with 18 index bits and gives every other file 20.\<close>

definition demo_index :: "u32 \<Rightarrow> file_index" where
  "demo_index bits =
     \<lparr>n_examples = 3, n_fields = 2, n_indices = 8, n_index_bits = bits,
      labels = [1, - 1, 1], offsets = [0, 2, 3, 5]\<rparr>"

definition demo_env :: "nat env" where
  "demo_env =
     \<lparr>read_index = (\<lambda>name. if name = ''val18.index'' \<or> name = ''test18.index''
                            then demo_index 18 else demo_index 20),
      read_batch = (\<lambda>name a b. replicate (unat b - unat a) \<lparr>findex = 1, fvalue = 1\<rparr>),
      create_model = (\<lambda>nf ni nb. 0),
      get_dropout_mask_size = (\<lambda>m fs. 64),
      predict = (\<lambda>m fs nrm msk dmult. 0),
      update = (\<lambda>m fs nrm g msk dmult. Suc m),
      engine = (\<lambda>sd i. i),
      rdrand64_step = (\<lambda>i. Some 5),
      stack_garbage = (\<lambda>a. 0),
      omp_schedule = (\<lambda>bi. bi)\<rparr>"

definition demo_sys :: sys where
  "demo_sys = \<lparr>omp_threads = 1, rnd_seed = 2017, rnd_pos = 0, hw_pos = 0, trace = []\<rparr>"

definition demo_dataset :: "u64 \<Rightarrow> batch_learn_dataset" where
  "demo_dataset n = \<lparr>index = (demo_index 20)\<lparr>n_examples := n\<rparr>, data_file_name = ''demo.data''\<rparr>"

text \<open>The value \<open>v\<close> with the next \<open>n\<close> hardware draws from position \<open>pos\<close> OR-ed into it.\<close>

fun or_into :: "(nat \<Rightarrow> u64 option) \<Rightarrow> nat \<Rightarrow> nat \<Rightarrow> u64 \<Rightarrow> u64" where
  "or_into hw pos 0 v = v"
| "or_into hw pos (Suc n) v =
     or_into hw (Suc pos) n (case hw pos of Some d \<Rightarrow> v OR d | None \<Rightarrow> v)"

definition draw_failed :: error where
  "draw_failed = RuntimeError ''Error generating random number!''"

text \<open>The trace of \<open>w'\<close> is the trace of \<open>w\<close> followed by the events \<open>evs\<close>, and the thread
  count and the seed are unchanged.\<close>

definition extends_by :: "sys \<Rightarrow> sys \<Rightarrow> event list \<Rightarrow> bool" where
  "extends_by w w' evs \<longleftrightarrow>
     trace w' = trace w @ evs \<and> omp_threads w' = omp_threads w \<and> rnd_seed w' = rnd_seed w"

text \<open>What a training pass may add to the trace between its first and its last line: batch
  reads, and example steps whose multiplier is \<open>dmult\<close>, whose norm is the norm of the
  features, whose score \<open>t\<close> is what \<open>predict\<close> returns on the arguments of the step, and
  whose gradient scale is \<open>-y exp(-y t) / (1 + exp(-y t))\<close> for the label \<open>y\<close> of the
  example.\<close>

definition step_ok :: "'m env \<Rightarrow> batch_learn_dataset \<Rightarrow> real \<Rightarrow> event \<Rightarrow> bool" where
  "step_ok e ds dmult ev =
     (case ev of
        EvTrainStep ei fs nrm msk dm t g \<Rightarrow>
          dm = dmult \<and> nrm = compute_norm fs \<and> (\<exists>m. t = predict e m fs nrm msk dm) \<and>
          g = - (labels (index ds) ! unat ei) * exp (- (labels (index ds) ! unat ei) * t)
              / (1 + exp (- (labels (index ds) ! unat ei) * t))
      | EvReadBatch f a b \<Rightarrow> True
      | _ \<Rightarrow> False)"

text \<open>The logistic loss \<open>ln (1 + exp (-y t))\<close> of the example steps of a trace.\<close>

definition step_loss :: "batch_learn_dataset \<Rightarrow> event \<Rightarrow> real" where
  "step_loss ds ev =
     (case ev of
        EvTrainStep ei fs nrm msk dm t g \<Rightarrow> ln (1 + exp (- (labels (index ds) ! unat ei) * t))
      | EvScore ei fs nrm msk dm t \<Rightarrow> ln (1 + exp (- (labels (index ds) ! unat ei) * t))
      | _ \<Rightarrow> 0)"

definition trace_loss :: "batch_learn_dataset \<Rightarrow> event list \<Rightarrow> real" where
  "trace_loss ds evs = sum_list (map (step_loss ds) evs)"

text \<open>The examples a trace steps through, in order.\<close>

definition step_index :: "event \<Rightarrow> nat list" where
  "step_index ev =
     (case ev of
        EvTrainStep ei fs nrm msk dm t g \<Rightarrow> [unat ei]
      | EvScore ei fs nrm msk dm t \<Rightarrow> [unat ei]
      | _ \<Rightarrow> [])"

definition stepped :: "event list \<Rightarrow> nat list" where
  "stepped evs = concat (map step_index evs)"

text \<open>The entropy source never fails, and no mask is larger than an \<^verbatim>\<open>int\<close> can count.\<close>

definition entropy_ok :: "'m env \<Rightarrow> bool" where
  "entropy_ok e \<longleftrightarrow> (\<forall>i. rdrand64_step e i \<noteq> None)"

definition mask_sizes_ok :: "'m env \<Rightarrow> bool" where
  "mask_sizes_ok e \<longleftrightarrow> (\<forall>m fs. (get_dropout_mask_size e m fs + 63) div 64 < 2 ^ 31)"

text \<open>The examples of a range, in order.\<close>

definition examples_of :: "u64 \<times> u64 \<Rightarrow> nat list" where
  "examples_of b = [unat (fst b)..<unat (snd b)]"

text \<open>What an evaluation pass may add to the trace between its first and its last line:
  batch reads, and scores computed by \<open>predict\<close> on the model \<open>m\<close> with the mask memory
  \<open>msk\<close> and the multiplier \<open>1\<close>, whose probability \<open>1 / (1 + exp (-t))\<close> stands in the
  slot of the example in \<open>preds\<close>.\<close>

definition score_ok :: "'m env \<Rightarrow> 'm \<Rightarrow> mask_mem \<Rightarrow> real list \<Rightarrow> event \<Rightarrow> bool" where
  "score_ok e m msk preds ev =
     (case ev of
        EvScore ei fs nrm mk dm t \<Rightarrow>
          mk = msk \<and> dm = 1 \<and> nrm = compute_norm fs \<and> t = predict e m fs nrm msk 1 \<and>
          unat ei < length preds \<and> preds ! unat ei = 1 / (1 + exp (- t))
      | EvReadBatch f a b \<Rightarrow> True
      | _ \<Rightarrow> False)"

text \<open>The frame of an evaluation step: the engine and the entropy source are not consulted.\<close>

definition quiet :: "sys \<Rightarrow> sys \<Rightarrow> bool" where
  "quiet w w' \<longleftrightarrow> rnd_pos w' = rnd_pos w \<and> hw_pos w' = hw_pos w"

text \<open>A well-formed dataset of \<open>2^32\<close> examples without features.\<close>

definition big_dataset :: batch_learn_dataset where
  "big_dataset =
     \<lparr>index = \<lparr>n_examples = 4294967296, n_fields = 2, n_indices = 8, n_index_bits = 20,
               labels = replicate 4294967296 1, offsets = replicate 4294967297 0\<rparr>,
      data_file_name = ''big.data''\<rparr>"

text \<open>The small instance with a model that asks for a mask of 256001 bits, which is 4001
  words.\<close>

definition wide_mask_env :: "nat env" where
  "wide_mask_env = demo_env\<lparr>get_dropout_mask_size := (\<lambda>m fs. 256001)\<rparr>"

text \<open>The values of \<^verbatim>\<open>dropout_prob_log\<close> with which a trace enters \<open>train_on_dataset\<close>.\<close>

definition train_mark :: "event \<Rightarrow> nat list" where
  "train_mark ev = (case ev of EvTrain k \<Rightarrow> [k] | _ \<Rightarrow> [])"

definition train_marks :: "event list \<Rightarrow> nat list" where
  "train_marks evs = concat (map train_mark evs)"

text \<open>The events of the epochs of a run: training passes entered with
  \<^verbatim>\<open>dropout_prob_log = 1\<close>, example steps with the multiplier \<open>2\<close>, and nothing of the
  prediction pass: no output file is created and nothing is written to one.\<close>

definition training_event :: "event \<Rightarrow> bool" where
  "training_event ev =
     (case ev of
        EvTrain k \<Rightarrow> k = 1
      | EvTrainStep ei fs nrm msk dm t g \<Rightarrow> dm = 2
      | EvPredictPass \<Rightarrow> False
      | EvReportCount c \<Rightarrow> False
      | EvOpenOutput f \<Rightarrow> False
      | EvWrite p \<Rightarrow> False
      | _ \<Rightarrow> True)"

text \<open>The events of the loops of evaluation, and those of prediction.\<close>

definition scoring_event :: "event \<Rightarrow> bool" where
  "scoring_event ev =
     (case ev of
        EvReadBatch f a b \<Rightarrow> True
      | EvScore ei fs nrm msk dm t \<Rightarrow> True
      | _ \<Rightarrow> False)"

definition predicting_event :: "event \<Rightarrow> bool" where
  "predicting_event ev =
     (case ev of
        EvReadBatch f a b \<Rightarrow> True
      | EvScore ei fs nrm msk dm t \<Rightarrow> True
      | EvWrite p \<Rightarrow> True
      | _ \<Rightarrow> False)"

text \<open>The events of a whole run, as far as the dropout schedule goes.\<close>

definition run_event :: "event \<Rightarrow> bool" where
  "run_event ev =
     (case ev of
        EvTrain k \<Rightarrow> k = 1
      | EvTrainStep ei fs nrm msk dm t g \<Rightarrow> dm = 2
      | _ \<Rightarrow> True)"

text \<open>The trace at the end of an outcome, and the error of one that throws.\<close>

definition final_trace :: "'a outcome \<Rightarrow> event list" where
  "final_trace r = (case r of Returns x w \<Rightarrow> trace w | Throws err w \<Rightarrow> trace w | Diverges \<Rightarrow> [])"

definition thrown :: "'a outcome \<Rightarrow> error option" where
  "thrown r = (case r of Throws err w \<Rightarrow> Some err | _ \<Rightarrow> None)"

text \<open>The first steps of \<open>run\<close>: the training dataset it loads, the state after loading it,
  and the model it creates.\<close>

definition train_dataset_of :: "'m env \<Rightarrow> model_command \<Rightarrow> batch_learn_dataset" where
  "train_dataset_of e cmd =
     \<lparr>index = read_index e (train_file_name cmd @ ''.index''),
      data_file_name = train_file_name cmd @ ''.data''\<rparr>"

definition started :: "model_command \<Rightarrow> sys \<Rightarrow> sys" where
  "started cmd w =
     emit (EvLoadIndex (train_file_name cmd @ ''.index''))
       (w\<lparr>omp_threads := n_threads cmd, rnd_seed := seed cmd, rnd_pos := 0\<rparr>)"

definition first_model :: "'m env \<Rightarrow> model_command \<Rightarrow> 'm" where
  "first_model e cmd =
     create_model e (n_fields (index (train_dataset_of e cmd)))
       (n_indices (index (train_dataset_of e cmd)))
       (n_index_bits (index (train_dataset_of e cmd)))"

text \<open>Commands for the small instance: two epochs on the file \<open>train\<close>; the same with a
  validation file of 18 index bits; one epoch and a prediction pass on a test file of 18
  index bits.\<close>

definition demo_command :: model_command where
  "demo_command =
     \<lparr>train_file_name = ''train'', val_file_name = [], test_file_name = [],
      pred_file_name = [], n_epochs = 2, n_threads = 1, seed = 2017\<rparr>"

definition val_mismatch_command :: model_command where
  "val_mismatch_command = demo_command\<lparr>val_file_name := ''val18''\<rparr>"

definition test_mismatch_command :: model_command where
  "test_mismatch_command =
     demo_command\<lparr>test_file_name := ''test18'', pred_file_name := ''out'', n_epochs := 1\<rparr>"

text \<open>The model after the example steps of a trace that starts on the model \<open>m\<close>: every
  step hands the model before it to \<open>update\<close>, with the features, norm, gradient scale,
  mask and multiplier of the step.\<close>

fun model_after :: "'m env \<Rightarrow> 'm \<Rightarrow> event list \<Rightarrow> 'm" where
  "model_after e m [] = m"
| "model_after e m (ev # evs) =
     model_after e
       (case ev of EvTrainStep ei fs nrm msk dm t g \<Rightarrow> update e m fs nrm g msk dm | _ \<Rightarrow> m)
       evs"

text \<open>The events are batch reads and example steps, and every step, taken on the model that
  the steps before it have left: its multiplier is \<open>dmult\<close>, its norm is the norm of its
  features, its score \<open>t\<close> is what \<open>predict\<close> returns on that model with the features, norm,
  mask and multiplier of the step, and its gradient scale is
  \<open>-y exp(-y t) / (1 + exp(-y t))\<close> for the label \<open>y\<close> of the example; the next step is
  taken on the model that \<open>update\<close> returns for these arguments.\<close>

fun steps_from :: "'m env \<Rightarrow> batch_learn_dataset \<Rightarrow> real \<Rightarrow> 'm \<Rightarrow> event list \<Rightarrow> bool" where
  "steps_from e ds dmult m [] = True"
| "steps_from e ds dmult m (ev # evs) =
     (case ev of
        EvTrainStep ei fs nrm msk dm t g \<Rightarrow>
          dm = dmult \<and> nrm = compute_norm fs \<and> t = predict e m fs nrm msk dm \<and>
          g = - (labels (index ds) ! unat ei) * exp (- (labels (index ds) ! unat ei) * t)
              / (1 + exp (- (labels (index ds) ! unat ei) * t)) \<and>
          steps_from e ds dmult (update e m fs nrm g msk dm) evs
      | EvReadBatch f a b \<Rightarrow> steps_from e ds dmult m evs
      | _ \<Rightarrow> False)"

text \<open>From the model \<open>m\<close> in the state \<open>w\<close>, such steps lead to the model \<open>m'\<close> in \<open>w'\<close>.\<close>

definition advances ::
  "'m env \<Rightarrow> batch_learn_dataset \<Rightarrow> real \<Rightarrow> 'm \<Rightarrow> sys \<Rightarrow> sys \<Rightarrow> 'm \<Rightarrow> bool" where
  "advances e ds dmult m w w' m' \<longleftrightarrow>
     (\<exists>evs. trace w' = trace w @ evs \<and> steps_from e ds dmult m evs \<and>
        m' = model_after e m evs)"

text \<open>The gradient scales of the example steps of a trace, each with its example.\<close>

definition step_gradient :: "event \<Rightarrow> (nat \<times> real) list" where
  "step_gradient ev =
     (case ev of EvTrainStep ei fs nrm msk dm t g \<Rightarrow> [(unat ei, g)] | _ \<Rightarrow> [])"

definition gradients :: "event list \<Rightarrow> (nat \<times> real) list" where
  "gradients evs = concat (map step_gradient evs)"

text \<open>The small instance with a validation file of 20 index bits, which match, and a test
  file of 18 index bits, which do not.\<close>

definition val_test_mismatch_command :: model_command where
  "val_test_mismatch_command =
     demo_command\<lparr>val_file_name := ''val'', test_file_name := ''test18'',
       pred_file_name := ''out''\<rparr>"

section \<open>Properties of the batch planner\<close>

lemma ranges_unfold:
  "lo < hi \<Longrightarrow> 0 < cap \<Longrightarrow> ranges cap lo hi = (lo, min (lo + cap) hi) # ranges cap (lo + cap) hi"
  by (subst ranges.simps) simp

lemma ranges_empty: "hi \<le> lo \<Longrightarrow> ranges cap lo hi = []"
  by (subst ranges.simps) simp

lemma ranges_contiguous:
  "lo \<le> hi \<Longrightarrow> 0 < cap \<Longrightarrow> contiguous_from lo hi (ranges cap lo hi)"
proof (induction cap lo hi rule: ranges.induct)
  case (1 cap lo hi)
  show ?case
  proof (cases "lo < hi")
    case False
    then show ?thesis using 1 by (simp add: ranges_empty)
  next
    case True
    show ?thesis
    proof (cases "lo + cap \<le> hi")
      case True
      then show ?thesis using 1 \<open>lo < hi\<close> by (simp add: ranges_unfold min_def)
    next
      case False
      then show ?thesis using 1(3) \<open>lo < hi\<close> by (simp add: ranges_unfold ranges_empty min_def)
    qed
  qed
qed

lemma ranges_full: "0 < cap \<Longrightarrow> full_but_last cap (ranges cap lo hi)"
proof (induction cap lo hi rule: ranges.induct)
  case (1 cap lo hi)
  show ?case
  proof (cases "lo < hi")
    case False
    then show ?thesis by (simp add: ranges_empty)
  next
    case True
    then have IH: "full_but_last cap (ranges cap (lo + cap) hi)" using 1 by simp
    show ?thesis
    proof (cases "lo + cap < hi")
      case True
      then have "ranges cap (lo + cap) hi =
          (lo + cap, min (lo + cap + cap) hi) # ranges cap (lo + cap + cap) hi"
        using 1(2) by (simp add: ranges_unfold)
      then show ?thesis using IH True \<open>lo < hi\<close> 1(2)
        by (simp add: ranges_unfold [of lo hi] min_def)
    next
      case False
      then show ?thesis using \<open>lo < hi\<close> 1(2)
        by (simp add: ranges_unfold [of lo hi] ranges_empty min_def)
    qed
  qed
qed

lemma ranges_bounded: "r \<in> set (ranges cap lo hi) \<Longrightarrow> fst r < hi \<and> snd r \<le> hi"
proof (induction cap lo hi rule: ranges.induct)
  case (1 cap lo hi)
  then show ?case
    by (subst (asm) (2) ranges.simps) (auto split: if_splits)
qed

lemma of_u64_to_u64: "fst r < 2 ^ 64 \<Longrightarrow> snd r < 2 ^ 64 \<Longrightarrow> of_u64 (to_u64 r) = r"
  by (cases r) (simp add: of_u64_def to_u64_def unat_of_nat take_bit_nat_eq_self)

lemma map_of_u64_ranges:
  assumes "hi < 2 ^ 64"
  shows "map of_u64 (map to_u64 (ranges cap lo hi)) = ranges cap lo hi"
proof -
  have "\<And>r. r \<in> set (ranges cap lo hi) \<Longrightarrow> of_u64 (to_u64 r) = r"
    using ranges_bounded assms by (intro of_u64_to_u64) force+
  then show ?thesis by (simp add: map_idI)
qed

lemma contiguous_cover:
  "contiguous_from lo hi rs \<Longrightarrow> (\<Union>r\<in>set rs. {fst r..<snd r}) = {lo..<hi} \<and> lo \<le> hi"
proof (induction rs arbitrary: lo)
  case Nil
  then show ?case by simp
next
  case (Cons r rs)
  then have "(\<Union>r\<in>set rs. {fst r..<snd r}) = {snd r..<hi}" "snd r \<le> hi" "fst r = lo" "fst r < snd r"
    by auto
  then show ?case by auto
qed

lemma contiguous_lower:
  "contiguous_from lo hi rs \<Longrightarrow> k < length rs \<Longrightarrow> lo \<le> fst (rs ! k)"
proof (induction rs arbitrary: lo k)
  case Nil
  then show ?case by simp
next
  case (Cons a rs)
  show ?case
  proof (cases k)
    case 0
    then show ?thesis using Cons.prems by simp
  next
    case (Suc n)
    then have "snd a \<le> fst (rs ! n)" using Cons.IH [of "snd a" n] Cons.prems by simp
    then show ?thesis using Suc Cons.prems by simp
  qed
qed

lemma contiguous_ordered:
  "contiguous_from lo hi rs \<Longrightarrow> i < j \<Longrightarrow> j < length rs \<Longrightarrow> snd (rs ! i) \<le> fst (rs ! j)"
proof (induction rs arbitrary: lo i j)
  case Nil
  then show ?case by simp
next
  case (Cons r rs)
  obtain j' where j: "j = Suc j'" using Cons.prems(2) by (cases j) auto
  have c: "contiguous_from (snd r) hi rs" using Cons.prems(1) by simp
  show ?case
  proof (cases i)
    case 0
    then show ?thesis using contiguous_lower [OF c, of j'] j Cons.prems(3) by simp
  next
    case (Suc i')
    then show ?thesis using Cons.IH [OF c, of i' j'] j Cons.prems by simp
  qed
qed

lemma batches_loop_ranges:
  assumes "unat n + 20000 \<le> 2 ^ 64"
  shows "batches_loop n s acc = Some (acc @ map to_u64 (ranges 20000 (unat s) (unat n)))"
proof (induction "unat n - unat s" arbitrary: s acc rule: less_induct)
  case less
  show ?case
  proof (cases "s < n")
    case False
    then have "unat n \<le> unat s" by (simp add: word_less_nat_alt)
    then show ?thesis using False
      by (subst batches_loop.simps) (simp add: ranges_empty)
  next
    case True
    then have lt: "unat s < unat n" by (simp add: word_less_nat_alt)
    have un: "unat (s + batch_size) = unat s + 20000"
      using lt assms by (simp add: batch_size_def unat_word_ariths)
    have m: "min_T (s + batch_size) n = word_of_nat (min (unat s + 20000) (unat n))"
      using un by (auto simp: min_T_def word_less_nat_alt min_def batch_size_def)
    have "batches_loop n s acc =
        batches_loop n (s + batch_size) (acc @ [(s, min_T (s + batch_size) n)])"
      using True by (subst batches_loop.simps) simp
    also have "\<dots> = Some ((acc @ [(s, min_T (s + batch_size) n)]) @
        map to_u64 (ranges 20000 (unat (s + batch_size)) (unat n)))"
      by (rule less) (use lt un in simp)
    also have "\<dots> = Some (acc @ map to_u64 (ranges 20000 (unat s) (unat n)))"
      using lt un m by (simp add: ranges_unfold [of "unat s"] to_u64_def)
    finally show ?thesis .
  qed
qed

lemma mini_batches_loop_ranges:
  assumes "unat n + 24 \<le> 2 ^ 64"
  shows "mini_batches_loop n s acc = Some (acc @ map to_u64 (ranges 24 (unat s) (unat n)))"
proof (induction "unat n - unat s" arbitrary: s acc rule: less_induct)
  case less
  show ?case
  proof (cases "s < n")
    case False
    then have "unat n \<le> unat s" by (simp add: word_less_nat_alt)
    then show ?thesis using False
      by (subst mini_batches_loop.simps) (simp add: ranges_empty)
  next
    case True
    then have lt: "unat s < unat n" by (simp add: word_less_nat_alt)
    have un: "unat (s + mini_batch_size) = unat s + 24"
      using lt assms by (simp add: mini_batch_size_def unat_word_ariths)
    have m: "min_T (s + mini_batch_size) n = word_of_nat (min (unat s + 24) (unat n))"
      using un by (auto simp: min_T_def word_less_nat_alt min_def mini_batch_size_def)
    have "mini_batches_loop n s acc =
        mini_batches_loop n (s + mini_batch_size) (acc @ [(s, min_T (s + mini_batch_size) n)])"
      using True by (subst mini_batches_loop.simps) simp
    also have "\<dots> = Some ((acc @ [(s, min_T (s + mini_batch_size) n)]) @
        map to_u64 (ranges 24 (unat (s + mini_batch_size)) (unat n)))"
      by (rule less) (use lt un in simp)
    also have "\<dots> = Some (acc @ map to_u64 (ranges 24 (unat s) (unat n)))"
      using lt un m by (simp add: ranges_unfold [of "unat s"] to_u64_def)
    finally show ?thesis .
  qed
qed

lemma shuffle_steps_mset:
  "\<forall>i\<in>set idx. i < length xs \<Longrightarrow> mset (fst (shuffle_steps g idx xs pos)) = mset xs"
proof (induction idx arbitrary: xs pos)
  case Nil
  then show ?case by simp
next
  case (Cons i idx)
  have i: "i < length xs" using Cons.prems by simp
  have "g pos mod (i + 1) < i + 1" by simp
  then have j: "g pos mod (i + 1) < length xs" using i by linarith
  have "mset (swap_elems i (g pos mod (i + 1)) xs) = mset xs"
    unfolding swap_elems_def using i j by (simp add: mset_swap)
  moreover have "\<forall>k\<in>set idx. k < length (swap_elems i (g pos mod (i + 1)) xs)"
    using Cons.prems by (simp add: swap_elems_def)
  ultimately show ?case using Cons.IH by simp
qed

lemma shuffle_steps_pos: "snd (shuffle_steps g idx xs pos) = pos + length idx"
  by (induction idx arbitrary: xs pos) auto

lemma std_shuffle_mset: "mset (fst (std_shuffle e xs w)) = mset xs"
  using shuffle_steps_mset [of "[1..<length xs]" xs "engine e (rnd_seed w)" "rnd_pos w"]
  by (cases "shuffle_steps (engine e (rnd_seed w)) [1..<length xs] xs (rnd_pos w)")
    (simp add: std_shuffle_def)

lemma std_shuffle_sys:
  "snd (std_shuffle e xs w) = w\<lparr>rnd_pos := rnd_pos w + (length xs - 1)\<rparr>"
  using shuffle_steps_pos [of "engine e (rnd_seed w)" "[1..<length xs]" xs "rnd_pos w"]
  by (cases "shuffle_steps (engine e (rnd_seed w)) [1..<length xs] xs (rnd_pos w)")
    (simp add: std_shuffle_def)

lemma generate_batches_plain:
  assumes "unat (n_examples (index ds)) + 20000 \<le> 2 ^ 64"
  shows "generate_batches e ds False w =
    Some (map to_u64 (ranges 20000 0 (unat (n_examples (index ds)))), w)"
  using batches_loop_ranges [OF assms, of 0 "[]"] by (simp add: generate_batches_def)

lemma generate_batches_shuffled:
  assumes "unat (n_examples (index ds)) + 20000 \<le> 2 ^ 64"
  shows "generate_batches e ds True w =
    Some (std_shuffle e (map to_u64 (ranges 20000 0 (unat (n_examples (index ds))))) w)"
  using batches_loop_ranges [OF assms, of 0 "[]"] by (simp add: generate_batches_def)

lemma contiguous_nonempty: "contiguous_from lo hi rs \<Longrightarrow> r \<in> set rs \<Longrightarrow> fst r < snd r"
  by (induction rs arbitrary: lo) auto

lemma full_but_last_le: "full_but_last cap rs \<Longrightarrow> r \<in> set rs \<Longrightarrow> snd r - fst r \<le> cap"
  by (induction cap rs rule: full_but_last.induct) auto

lemma batches_loop_odd_end:
  assumes "batches_loop n s acc = Some r"
  shows "\<not> (n = - 1 \<and> even s)"
proof (rule batches_loop.raw_induct [where P = "\<lambda>n s acc r. \<not> (n = - 1 \<and> even s)", OF _ assms])
  fix f :: "u64 \<Rightarrow> u64 \<Rightarrow> (u64 \<times> u64) list \<Rightarrow> (u64 \<times> u64) list option"
  fix n s :: u64 and acc r :: "(u64 \<times> u64) list"
  assume IH: "\<And>n s acc r. f n s acc = Some r \<Longrightarrow> \<not> (n = - 1 \<and> even s)"
  assume step: "(if s < n then f n (s + batch_size) (acc @ [(s, min_T (s + batch_size) n)])
      else Some acc) = Some r"
  show "\<not> (n = - 1 \<and> even s)"
  proof
    assume a: "n = - 1 \<and> even s"
    have "odd (- 1 :: u64)" by simp
    then have "s \<noteq> - 1" using a by metis
    then have "s < n" using a by (simp add: word_order.not_eq_extremum)
    then have "f n (s + batch_size) (acc @ [(s, min_T (s + batch_size) n)]) = Some r"
      using step by simp
    moreover have "even (s + batch_size)" using a by (simp add: batch_size_def)
    ultimately show False using IH a by blast
  qed
qed

lemma mini_batches_loop_odd_end:
  assumes "mini_batches_loop n s acc = Some r"
  shows "\<not> (n = - 1 \<and> even s)"
proof (rule mini_batches_loop.raw_induct [where P = "\<lambda>n s acc r. \<not> (n = - 1 \<and> even s)", OF _ assms])
  fix f :: "u64 \<Rightarrow> u64 \<Rightarrow> (u64 \<times> u64) list \<Rightarrow> (u64 \<times> u64) list option"
  fix n s :: u64 and acc r :: "(u64 \<times> u64) list"
  assume IH: "\<And>n s acc r. f n s acc = Some r \<Longrightarrow> \<not> (n = - 1 \<and> even s)"
  assume step: "(if s < n
      then f n (s + mini_batch_size) (acc @ [(s, min_T (s + mini_batch_size) n)])
      else Some acc) = Some r"
  show "\<not> (n = - 1 \<and> even s)"
  proof
    assume a: "n = - 1 \<and> even s"
    have "odd (- 1 :: u64)" by simp
    then have "s \<noteq> - 1" using a by metis
    then have "s < n" using a by (simp add: word_order.not_eq_extremum)
    then have "f n (s + mini_batch_size) (acc @ [(s, min_T (s + mini_batch_size) n)]) = Some r"
      using step by simp
    moreover have "even (s + mini_batch_size)" using a by (simp add: mini_batch_size_def)
    ultimately show False using IH a by blast
  qed
qed

lemma ranges_u64_properties:
  assumes "hi < 2 ^ 64" and "lo \<le> hi" and "0 < cap"
  defines "bs \<equiv> map to_u64 (ranges cap lo hi)"
  shows "contiguous_from lo hi (map of_u64 bs)"
    and "full_but_last cap (map of_u64 bs)"
    and "(\<Union>b\<in>set bs. {unat (fst b)..<unat (snd b)}) = {lo..<hi}"
    and "\<forall>j<length bs. \<forall>i<j. unat (snd (bs ! i)) \<le> unat (fst (bs ! j))"
    and "\<forall>b\<in>set bs. unat (fst b) < unat (snd b) \<and> unat (snd b) - unat (fst b) \<le> cap"
proof -
  have rs: "map of_u64 bs = ranges cap lo hi"
    unfolding bs_def by (rule map_of_u64_ranges [OF assms(1)])
  show c: "contiguous_from lo hi (map of_u64 bs)"
    using ranges_contiguous [OF assms(2,3)] rs by simp
  show f: "full_but_last cap (map of_u64 bs)"
    using ranges_full [OF assms(3), of lo hi] rs by simp
  have "(\<Union>r\<in>set (map of_u64 bs). {fst r..<snd r}) = {lo..<hi}"
    using contiguous_cover [OF c] by simp
  then show "(\<Union>b\<in>set bs. {unat (fst b)..<unat (snd b)}) = {lo..<hi}"
    by (simp add: of_u64_def)
  show "\<forall>j<length bs. \<forall>i<j. unat (snd (bs ! i)) \<le> unat (fst (bs ! j))"
  proof (intro allI impI)
    fix j i assume j: "j < length bs" and i: "i < j"
    have "snd (map of_u64 bs ! i) \<le> fst (map of_u64 bs ! j)"
      by (rule contiguous_ordered [OF c i]) (use j in simp)
    then show "unat (snd (bs ! i)) \<le> unat (fst (bs ! j))"
      using i j by (simp add: of_u64_def)
  qed
  show "\<forall>b\<in>set bs. unat (fst b) < unat (snd b) \<and> unat (snd b) - unat (fst b) \<le> cap"
  proof
    fix b assume b: "b \<in> set bs"
    then have m: "of_u64 b \<in> set (map of_u64 bs)" unfolding set_map by (rule imageI)
    have "snd (of_u64 b) - fst (of_u64 b) \<le> cap" by (rule full_but_last_le [OF f m])
    moreover have "fst (of_u64 b) < snd (of_u64 b)"
      using contiguous_nonempty [OF c m] .
    ultimately show "unat (fst b) < unat (snd b) \<and> unat (snd b) - unat (fst b) \<le> cap"
      by (simp add: of_u64_def)
  qed
qed

lemma generate_mini_batches_ranges:
  assumes "unat end_index + 24 \<le> 2 ^ 64"
  shows "generate_mini_batches begin_index end_index =
    Some (map to_u64 (ranges 24 (unat begin_index) (unat end_index)))"
  using mini_batches_loop_ranges [OF assms, of begin_index "[]"]
  by (simp add: generate_mini_batches_def)

text \<open>
  C3 (as amended). For every dataset whose \<open>n_examples\<close> is at most \<open>2^64 - 20000\<close>,
  \<open>generate_batches\<close> returns. Without shuffling the ranges it returns are non-empty and
  contiguous from \<open>0\<close> to \<open>n_examples\<close> in ascending order, so they do not overlap and
  cover exactly \<open>[0, n_examples)\<close>; each has at most 20000 elements and all but the last
  exactly 20000; and the engine is left as it was. With shuffling it returns a
  permutation of the same ranges.
\<close>

theorem generate_batches_partition:
  assumes "unat (n_examples (index ds)) + 20000 \<le> 2 ^ 64"
  shows "\<exists>bs bs' w'.
    generate_batches e ds False w = Some (bs, w) \<and>
    contiguous_from 0 (unat (n_examples (index ds))) (map of_u64 bs) \<and>
    full_but_last 20000 (map of_u64 bs) \<and>
    (\<Union>b\<in>set bs. {unat (fst b)..<unat (snd b)}) = {0..<unat (n_examples (index ds))} \<and>
    (\<forall>j<length bs. \<forall>i<j. unat (snd (bs ! i)) \<le> unat (fst (bs ! j))) \<and>
    (\<forall>b\<in>set bs. unat (fst b) < unat (snd b) \<and> unat (snd b) - unat (fst b) \<le> 20000) \<and>
    generate_batches e ds True w = Some (bs', w') \<and> mset bs' = mset bs"
proof -
  let ?n = "unat (n_examples (index ds))"
  let ?bs = "map to_u64 (ranges 20000 0 ?n)"
  have n: "?n < 2 ^ 64" using assms by simp
  have z: "0 \<le> ?n" and c: "(0 :: nat) < 20000" by simp_all
  note props = ranges_u64_properties [OF n z c]
  obtain bs' w' where s: "std_shuffle e ?bs w = (bs', w')" by (cases "std_shuffle e ?bs w")
  then have m: "mset bs' = mset ?bs" using std_shuffle_mset [of e ?bs w] by simp
  have p: "generate_batches e ds False w = Some (?bs, w)"
    by (rule generate_batches_plain [OF assms])
  have q: "generate_batches e ds True w = Some (bs', w')"
    using generate_batches_shuffled [OF assms, of e w] s by simp
  show ?thesis
    apply (rule exI [of _ ?bs])
    apply (rule exI [of _ bs'])
    apply (rule exI [of _ w'])
    using p q props m apply (intro conjI)
          apply assumption+
    done
qed

theorem generate_batches_partition_witness:
  "unat (n_examples (index (demo_dataset 50000))) + 20000 \<le> 2 ^ 64 \<and>
   generate_batches demo_env (demo_dataset 50000) False demo_sys =
     Some ([(0, 20000), (20000, 40000), (40000, 50000)], demo_sys) \<and>
   (\<exists>bs bs' w'.
      generate_batches demo_env (demo_dataset 50000) False demo_sys = Some (bs, demo_sys) \<and>
      contiguous_from 0 50000 (map of_u64 bs) \<and>
      full_but_last 20000 (map of_u64 bs) \<and>
      (\<Union>b\<in>set bs. {unat (fst b)..<unat (snd b)}) = {0..<50000} \<and>
      generate_batches demo_env (demo_dataset 50000) True demo_sys = Some (bs', w') \<and>
      mset bs' = mset bs)"
proof -
  have n: "n_examples (index (demo_dataset 50000)) = 50000"
    by (simp add: demo_dataset_def)
  have h: "unat (n_examples (index (demo_dataset 50000))) + 20000 \<le> 2 ^ 64"
    by (simp add: n)
  have v: "generate_batches demo_env (demo_dataset 50000) False demo_sys =
      Some ([(0, 20000), (20000, 40000), (40000, 50000)], demo_sys)"
    by (simp add: generate_batches_def n batches_loop.simps batch_size_def min_T_def)
  show ?thesis
    using h v generate_batches_partition [OF h, of demo_env demo_sys] unfolding n
    by (simp only: unsigned_numeral) auto
qed

theorem generate_batches_never_returns:
  "generate_batches demo_env (demo_dataset 18446744073709551615) False demo_sys = None"
proof -
  have "batches_loop (- 1) 0 [] = None"
    using batches_loop_odd_end [of "- 1" 0 "[]"] by (cases "batches_loop (- 1) 0 []") auto
  moreover have "n_examples (index (demo_dataset 18446744073709551615)) = - 1"
    by (simp add: demo_dataset_def)
  ultimately show ?thesis by (simp add: generate_batches_def)
qed

text \<open>
  C4 (as amended). For every \<open>begin \<le> end\<close> with \<open>end\<close> at most \<open>2^64 - 24\<close>,
  \<open>generate_mini_batches\<close> returns ranges that are non-empty and contiguous from \<open>begin\<close>
  to \<open>end\<close> in ascending order, so they do not overlap and cover exactly \<open>[begin, end)\<close>;
  each has at most 24 elements and all but the last exactly 24.
\<close>

theorem generate_mini_batches_partition:
  assumes "begin_index \<le> end_index" and "unat end_index + 24 \<le> 2 ^ 64"
  shows "\<exists>mbs.
    generate_mini_batches begin_index end_index = Some mbs \<and>
    contiguous_from (unat begin_index) (unat end_index) (map of_u64 mbs) \<and>
    full_but_last 24 (map of_u64 mbs) \<and>
    (\<Union>b\<in>set mbs. {unat (fst b)..<unat (snd b)}) = {unat begin_index..<unat end_index} \<and>
    (\<forall>j<length mbs. \<forall>i<j. unat (snd (mbs ! i)) \<le> unat (fst (mbs ! j))) \<and>
    (\<forall>b\<in>set mbs. unat (fst b) < unat (snd b) \<and> unat (snd b) - unat (fst b) \<le> 24)"
proof -
  have n: "unat end_index < 2 ^ 64" using assms(2) by simp
  have le: "unat begin_index \<le> unat end_index" using assms(1) by (simp add: word_le_nat_alt)
  have c: "(0 :: nat) < 24" by simp
  note props = ranges_u64_properties [OF n le c]
  show ?thesis
    apply (rule exI [of _ "map to_u64 (ranges 24 (unat begin_index) (unat end_index))"])
    using generate_mini_batches_ranges [OF assms(2), of begin_index] props apply (intro conjI)
         apply assumption+
    done
qed

theorem generate_mini_batches_partition_witness:
  "(20000 :: u64) \<le> 20050 \<and> unat (20050 :: u64) + 24 \<le> 2 ^ 64 \<and>
   generate_mini_batches 20000 20050 = Some [(20000, 20024), (20024, 20048), (20048, 20050)] \<and>
   (\<exists>mbs.
      generate_mini_batches 20000 20050 = Some mbs \<and>
      contiguous_from 20000 20050 (map of_u64 mbs) \<and>
      full_but_last 24 (map of_u64 mbs) \<and>
      (\<Union>b\<in>set mbs. {unat (fst b)..<unat (snd b)}) = {20000..<20050})"
proof -
  have h1: "(20000 :: u64) \<le> 20050" by simp
  have h2: "unat (20050 :: u64) + 24 \<le> 2 ^ 64" by simp
  have v: "generate_mini_batches 20000 20050 =
      Some [(20000, 20024), (20024, 20048), (20048, 20050)]"
    by (simp add: generate_mini_batches_def mini_batches_loop.simps mini_batch_size_def min_T_def)
  show ?thesis
    using h1 h2 v generate_mini_batches_partition [OF h1 h2]
    by (simp only: unsigned_numeral) auto
qed

theorem generate_mini_batches_never_returns:
  "generate_mini_batches 0 18446744073709551615 = None"
proof -
  have "mini_batches_loop (- 1) 0 [] = None"
    using mini_batches_loop_odd_end [of "- 1" 0 "[]"]
    by (cases "mini_batches_loop (- 1) 0 []") auto
  moreover have "(18446744073709551615 :: u64) = - 1" by simp
  ultimately show ?thesis by (simp only: generate_mini_batches_def)
qed

section \<open>Properties of the mask generator\<close>

lemma bit_or_into:
  "bit (or_into hw pos n v) b \<longleftrightarrow> bit v b \<or> (\<exists>t<n. \<exists>d. hw (pos + t) = Some d \<and> bit d b)"
proof (induction n arbitrary: pos v)
  case 0
  then show ?case by simp
next
  case (Suc n)
  have split: "(\<exists>t<Suc n. \<exists>d. hw (pos + t) = Some d \<and> bit d b) \<longleftrightarrow>
      (\<exists>d. hw pos = Some d \<and> bit d b) \<or> (\<exists>t<n. \<exists>d. hw (Suc pos + t) = Some d \<and> bit d b)"
    (is "?L \<longleftrightarrow> ?A \<or> ?B")
  proof
    assume ?L
    then obtain t d where t: "t < Suc n" "hw (pos + t) = Some d" "bit d b" by blast
    show "?A \<or> ?B"
    proof (cases t)
      case 0
      then show ?thesis using t by auto
    next
      case (Suc t')
      then have "t' < n \<and> hw (Suc pos + t') = Some d \<and> bit d b" using t by simp
      then show ?thesis by blast
    qed
  next
    assume "?A \<or> ?B"
    then show ?L
    proof
      assume ?A
      then have "\<exists>d. hw (pos + 0) = Some d \<and> bit d b" by simp
      then show ?L by blast
    next
      assume ?B
      then obtain t d where "t < n" "hw (Suc pos + t) = Some d" "bit d b" by blast
      then have "Suc t < Suc n \<and> hw (pos + Suc t) = Some d \<and> bit d b" by simp
      then show ?L by blast
    qed
  qed
  show ?case
    unfolding split by (cases "hw pos") (auto simp: Suc.IH bit_or_iff)
qed

lemma fill_word_loop_ok:
  assumes "\<forall>t<nat (k - i). hw (pos + t) \<noteq> None"
  shows "fill_word_loop hw msk p i k pos =
    (Inr (msk(nat p := or_into hw pos (nat (k - i)) (msk (nat p)))), pos + nat (k - i))"
  using assms
proof (induction "nat (k - i)" arbitrary: i msk pos)
  case 0
  then show ?case by (subst fill_word_loop.simps) simp
next
  case (Suc n)
  then have lt: "i < k" and n: "n = nat (k - (i + 1))" by linarith+
  have "hw (pos + 0) \<noteq> None" using Suc.prems Suc.hyps(2) by (metis zero_less_Suc)
  then obtain v where v: "hw pos = Some v" by auto
  have rest: "\<forall>t<nat (k - (i + 1)). hw (pos + 1 + t) \<noteq> None"
  proof (intro allI impI)
    fix t assume "t < nat (k - (i + 1))"
    then have "Suc t < nat (k - i)" using n Suc.hyps(2) by linarith
    then show "hw (pos + 1 + t) \<noteq> None" using Suc.prems by (metis add_Suc_right Suc_eq_plus1 add.assoc add.commute)
  qed
  have k: "nat (k - i) = Suc (nat (k - (i + 1)))" using Suc.hyps(2) n by simp
  have ih: "fill_word_loop hw (msk(nat p := msk (nat p) OR v)) p (i + 1) k (Suc pos) =
      (Inr (msk(nat p := or_into hw (Suc pos) (nat (k - (i + 1))) (msk (nat p) OR v))),
       Suc pos + nat (k - (i + 1)))"
    using Suc.hyps(1) [OF n, of "Suc pos" "msk(nat p := msk (nat p) OR v)"] rest by simp
  show ?case
    by (subst fill_word_loop.simps) (simp add: lt v ih k)
qed

lemma fill_word_loop_fail:
  assumes "f < nat (k - i)" and "hw (pos + f) = None" and "\<forall>t<f. hw (pos + t) \<noteq> None"
  shows "fill_word_loop hw msk p i k pos = (Inl draw_failed, pos + f + 1)"
  using assms
proof (induction f arbitrary: i msk pos)
  case 0
  then show ?case by (subst fill_word_loop.simps) (simp add: draw_failed_def)
next
  case (Suc f)
  have lt: "i < k" using Suc.prems(1) by linarith
  have "hw (pos + 0) \<noteq> None" using Suc.prems(3) by (metis zero_less_Suc)
  then obtain v where v: "hw pos = Some v" by auto
  have a: "f < nat (k - (i + 1))" using Suc.prems(1) by linarith
  have b: "hw (Suc pos + f) = None" using Suc.prems(2) by simp
  have c: "\<forall>t<f. hw (Suc pos + t) \<noteq> None"
  proof (intro allI impI)
    fix t assume "t < f"
    then have "Suc t < Suc f" by simp
    then have "hw (pos + Suc t) \<noteq> None" using Suc.prems(3) by blast
    then show "hw (Suc pos + t) \<noteq> None" by simp
  qed
  have ih: "fill_word_loop hw (msk(nat p := msk (nat p) OR v)) p (i + 1) k (Suc pos) =
      (Inl draw_failed, Suc pos + f + 1)"
    by (rule Suc.IH [OF a b c])
  show ?case
    by (subst fill_word_loop.simps) (simp add: lt v ih)
qed

lemma fill_mask_loop_ok:
  assumes "0 \<le> p" and "0 \<le> k" and "\<forall>t<nat (sz - p) * nat k. hw (pos + t) \<noteq> None"
  shows "\<exists>msk'. fill_mask_loop hw msk p sz k pos = (Inr msk', pos + nat (sz - p) * nat k) \<and>
    (\<forall>a. msk' a = (if nat p \<le> a \<and> a < nat sz
                     then or_into hw (pos + (a - nat p) * nat k) (nat k) (msk a) else msk a))"
  using assms
proof (induction "nat (sz - p)" arbitrary: p msk pos)
  case 0
  then have "\<not> p < sz" by simp
  then show ?case using 0 by (subst fill_mask_loop.simps) auto
next
  case (Suc n)
  then have lt: "p < sz" and n: "n = nat (sz - (p + 1))" by linarith+
  have "nat (sz - p) = Suc (nat (sz - (p + 1)))" using Suc.hyps(2) n by simp
  then have cnt: "nat (sz - p) * nat k = nat k + nat (sz - (p + 1)) * nat k"
    by (simp only: mult_Suc)
  have w: "\<forall>t<nat (k - 0). hw (pos + t) \<noteq> None"
    using Suc.prems(3) cnt by simp
  let ?m1 = "msk(nat p := or_into hw pos (nat k) (msk (nat p)))"
  have inner: "fill_word_loop hw msk p 0 k pos = (Inr ?m1, pos + nat k)"
    using fill_word_loop_ok [OF w, of msk p] by simp
  have rest: "\<forall>t<nat (sz - (p + 1)) * nat k. hw (pos + nat k + t) \<noteq> None"
  proof (intro allI impI)
    fix t assume "t < nat (sz - (p + 1)) * nat k"
    then have "nat k + t < nat (sz - p) * nat k" using cnt by simp
    then have "hw (pos + (nat k + t)) \<noteq> None" using Suc.prems(3) by blast
    then show "hw (pos + nat k + t) \<noteq> None" by (simp add: add.assoc)
  qed
  have p1: "0 \<le> p + 1" using Suc.prems(1) by simp
  obtain msk' where
    r: "fill_mask_loop hw ?m1 (p + 1) sz k (pos + nat k) =
        (Inr msk', pos + nat k + nat (sz - (p + 1)) * nat k)" and
    m: "\<forall>a. msk' a = (if nat (p + 1) \<le> a \<and> a < nat sz
          then or_into hw (pos + nat k + (a - nat (p + 1)) * nat k) (nat k) (?m1 a)
          else ?m1 a)"
    using Suc.hyps(1) [OF n p1 Suc.prems(2) rest, of ?m1] by blast
  have np: "nat (p + 1) = Suc (nat p)" using Suc.prems(1) by simp
  have eq: "fill_mask_loop hw msk p sz k pos = (Inr msk', pos + nat (sz - p) * nat k)"
    by (subst fill_mask_loop.simps) (simp add: lt inner r cnt)
  have "msk' a = (if nat p \<le> a \<and> a < nat sz
      then or_into hw (pos + (a - nat p) * nat k) (nat k) (msk a) else msk a)" for a
  proof (cases "a = nat p")
    case True
    then show ?thesis using m lt Suc.prems(1) by (simp add: np)
  next
    case False
    show ?thesis
    proof (cases "Suc (nat p) \<le> a \<and> a < nat sz")
      case True
      then have "(a - nat p) * nat k = nat k + (a - Suc (nat p)) * nat k"
        by (metis Suc_diff_le Suc_le_lessD diff_Suc_Suc mult_Suc less_or_eq_imp_le)
      then show ?thesis using m True False by (simp add: np add.assoc)
    next
      case F2: False
      then show ?thesis using m False by (auto simp: np)
    qed
  qed
  then show ?case using eq by blast
qed

lemma fill_mask_loop_fail:
  assumes "0 \<le> p" and "0 \<le> k" and "f < nat (sz - p) * nat k" and "hw (pos + f) = None"
    and "\<forall>t<f. hw (pos + t) \<noteq> None"
  shows "fill_mask_loop hw msk p sz k pos = (Inl draw_failed, pos + f + 1)"
  using assms
proof (induction "nat (sz - p)" arbitrary: p msk pos f)
  case 0
  then show ?case by simp
next
  case (Suc n)
  then have lt: "p < sz" and n: "n = nat (sz - (p + 1))" by linarith+
  have "nat (sz - p) = Suc (nat (sz - (p + 1)))" using Suc.hyps(2) n by simp
  then have cnt: "nat (sz - p) * nat k = nat k + nat (sz - (p + 1)) * nat k"
    by (simp only: mult_Suc)
  show ?case
  proof (cases "f < nat k")
    case True
    then have "f < nat (k - 0)" by simp
    then have "fill_word_loop hw msk p 0 k pos = (Inl draw_failed, pos + f + 1)"
      using Suc.prems(4,5) by (rule fill_word_loop_fail)
    then show ?thesis by (subst fill_mask_loop.simps) (simp add: lt)
  next
    case False
    then have w: "\<forall>t<nat (k - 0). hw (pos + t) \<noteq> None" using Suc.prems(5) by simp
    let ?m1 = "msk(nat p := or_into hw pos (nat k) (msk (nat p)))"
    have inner: "fill_word_loop hw msk p 0 k pos = (Inr ?m1, pos + nat k)"
      using fill_word_loop_ok [OF w, of msk p] by simp
    have p1: "0 \<le> p + 1" using Suc.prems(1) by simp
    have a: "f - nat k < nat (sz - (p + 1)) * nat k" using Suc.prems(3) cnt False by linarith
    have b: "hw (pos + nat k + (f - nat k)) = None" using Suc.prems(4) False by simp
    have c: "\<forall>t<f - nat k. hw (pos + nat k + t) \<noteq> None"
    proof (intro allI impI)
      fix t assume "t < f - nat k"
      then have "nat k + t < f" by linarith
      then have "hw (pos + (nat k + t)) \<noteq> None" using Suc.prems(5) by blast
      then show "hw (pos + nat k + t) \<noteq> None" by (simp add: add.assoc)
    qed
    have "fill_mask_loop hw ?m1 (p + 1) sz k (pos + nat k) =
        (Inl draw_failed, pos + nat k + (f - nat k) + 1)"
      by (rule Suc.hyps(1) [OF n p1 Suc.prems(2) a b c])
    then show ?thesis using False by (subst fill_mask_loop.simps) (simp add: lt inner)
  qed
qed

lemma memset_zero_words:
  assumes "0 \<le> sz" and "sz < 2 ^ 31"
  shows "memset msk 0 (byte_count sz) a = (if a < nat sz then 0 else msk a)"
proof -
  have "sz * 8 < 2 ^ 64" using assms(2) by simp
  then have "(sz * 8) mod 2 ^ 64 = sz * 8" using assms(1) by simp
  then have "byte_count sz div 8 = nat sz" using assms(1) by (simp add: byte_count_def nat_mult_distrib)
  then show ?thesis by (simp add: memset_def)
qed

lemma memset_ones_words:
  assumes "0 \<le> sz" and "sz < 2 ^ 31"
  shows "fill_mask_ones msk sz a = (if a < nat sz then - 1 else msk a)"
proof -
  have "sz * 8 < 2 ^ 64" using assms(2) by simp
  then have "(sz * 8) mod 2 ^ 64 = sz * 8" using assms(1) by simp
  then have "byte_count sz div 8 = nat sz" using assms(1) by (simp add: byte_count_def nat_mult_distrib)
  moreover have "(255 :: u64) * 0x0101010101010101 = - 1" by simp
  ultimately show ?thesis by (simp add: memset_def fill_mask_ones_def)
qed


text \<open>
  C8. For a size \<open>0 \<le> size\<close> (an \<^verbatim>\<open>int\<close>, so below \<open>2^31\<close>) and \<open>0 \<le> zero_prob_log\<close>,
  \<open>fill_mask_rand\<close> runs the two loops on the memory in which the first \<open>size\<close> words
  are zero. If none of the next \<open>size * zero_prob_log\<close> hardware draws fails, it returns
  having made exactly these draws: word \<open>a < size\<close> is the bitwise OR of the
  \<open>zero_prob_log\<close> draws numbered \<open>a * zero_prob_log\<close> onwards (a bit is set exactly when
  one of these draws has it set), and the words from \<open>size\<close> on are untouched. If draw
  \<open>f\<close> is the first to fail, it throws \<^verbatim>\<open>Error generating random number!\<close> and the
  failed draw is the last one made, whatever the later draws would have delivered.
\<close>

theorem fill_mask_rand_contract:
  assumes "0 \<le> sz" and "sz < 2 ^ 31" and "0 \<le> k"
  shows
    "fill_mask_rand hw msk sz k pos =
       fill_mask_loop hw (\<lambda>a. if a < nat sz then 0 else msk a) 0 sz k pos \<and>
     ((\<forall>t<nat sz * nat k. hw (pos + t) \<noteq> None) \<longrightarrow>
        (\<exists>msk'. fill_mask_rand hw msk sz k pos = (Inr msk', pos + nat sz * nat k) \<and>
           (\<forall>a<nat sz. msk' a = or_into hw (pos + a * nat k) (nat k) 0) \<and>
           (\<forall>a<nat sz. \<forall>b. bit (msk' a) b \<longleftrightarrow>
              (\<exists>t<nat k. \<exists>d. hw (pos + a * nat k + t) = Some d \<and> bit d b)) \<and>
           (\<forall>a\<ge>nat sz. msk' a = msk a))) \<and>
     (\<forall>f<nat sz * nat k. hw (pos + f) = None \<and> (\<forall>t<f. hw (pos + t) \<noteq> None) \<longrightarrow>
        fill_mask_rand hw msk sz k pos =
          (Inl (RuntimeError ''Error generating random number!''), pos + f + 1))"
proof (intro conjI impI allI)
  have z: "memset msk 0 (byte_count sz) = (\<lambda>a. if a < nat sz then 0 else msk a)"
    using memset_zero_words [OF assms(1,2)] by auto
  show "fill_mask_rand hw msk sz k pos =
      fill_mask_loop hw (\<lambda>a. if a < nat sz then 0 else msk a) 0 sz k pos"
    by (simp add: fill_mask_rand_def z)
  {
    assume ok: "\<forall>t<nat sz * nat k. hw (pos + t) \<noteq> None"
    have ok': "\<forall>t<nat (sz - 0) * nat k. hw (pos + t) \<noteq> None" using ok by simp
    obtain msk' where
      r: "fill_mask_loop hw (memset msk 0 (byte_count sz)) 0 sz k pos =
          (Inr msk', pos + nat (sz - 0) * nat k)" and
      m: "\<forall>a. msk' a = (if nat 0 \<le> a \<and> a < nat sz
            then or_into hw (pos + (a - nat 0) * nat k) (nat k) (memset msk 0 (byte_count sz) a)
            else memset msk 0 (byte_count sz) a)"
      using fill_mask_loop_ok [OF order_refl assms(3) ok', of "memset msk 0 (byte_count sz)"]
      by blast
    have a: "\<forall>a<nat sz. msk' a = or_into hw (pos + a * nat k) (nat k) 0"
      using m by (simp add: z)
    have b: "\<forall>a<nat sz. \<forall>b. bit (msk' a) b \<longleftrightarrow>
        (\<exists>t<nat k. \<exists>d. hw (pos + a * nat k + t) = Some d \<and> bit d b)"
      using a by (simp add: bit_or_into)
    have c: "\<forall>a\<ge>nat sz. msk' a = msk a" using m by (simp add: z)
    have "fill_mask_rand hw msk sz k pos = (Inr msk', pos + nat sz * nat k)"
      using r by (simp add: fill_mask_rand_def)
    then show "\<exists>msk'. fill_mask_rand hw msk sz k pos = (Inr msk', pos + nat sz * nat k) \<and>
        (\<forall>a<nat sz. msk' a = or_into hw (pos + a * nat k) (nat k) 0) \<and>
        (\<forall>a<nat sz. \<forall>b. bit (msk' a) b \<longleftrightarrow>
           (\<exists>t<nat k. \<exists>d. hw (pos + a * nat k + t) = Some d \<and> bit d b)) \<and>
        (\<forall>a\<ge>nat sz. msk' a = msk a)"
      using a b c by blast
  }
  {
    fix f
    assume f: "f < nat sz * nat k"
      and n: "hw (pos + f) = None \<and> (\<forall>t<f. hw (pos + t) \<noteq> None)"
    have f': "f < nat (sz - 0) * nat k" using f by simp
    show "fill_mask_rand hw msk sz k pos =
        (Inl (RuntimeError ''Error generating random number!''), pos + f + 1)"
      using fill_mask_loop_fail [OF order_refl assms(3) f', of hw pos] n
      by (simp add: fill_mask_rand_def draw_failed_def)
  }
qed

theorem fill_mask_rand_contract_witness:
  "(0 :: int) \<le> 2 \<and> (2 :: int) < 2 ^ 31 \<and>
   (case fill_mask_rand (\<lambda>i. Some (2 ^ i)) (\<lambda>a. 99) 2 2 0 of
      (Inr m, p) \<Rightarrow> m 0 = 3 \<and> m 1 = 12 \<and> m 2 = 99 \<and> p = 4
    | (Inl err, p) \<Rightarrow> False) \<and>
   fill_mask_rand (\<lambda>i. if i = 2 then None else Some 1) (\<lambda>a. 99) 2 2 0 =
     (Inl (RuntimeError ''Error generating random number!''), 3)"
proof -
  have h1: "(0 :: int) \<le> 2" and h2: "(2 :: int) < 2 ^ 31" by simp_all
  have ok: "case fill_mask_rand (\<lambda>i. Some (2 ^ i)) (\<lambda>a. 99) 2 2 0 of
      (Inr m, p) \<Rightarrow> m 0 = 3 \<and> m 1 = 12 \<and> m 2 = 99 \<and> p = 4
    | (Inl err, p) \<Rightarrow> False"
    by (simp add: fill_mask_rand_def fill_mask_loop.simps fill_word_loop.simps memset_def
        byte_count_def)
  have "fill_mask_rand (\<lambda>i. if i = 2 then None else Some 1) (\<lambda>a. 99) 2 2 0 =
      (Inl (RuntimeError ''Error generating random number!''), 0 + 2 + 1)"
    by (rule fill_mask_rand_contract [OF h1 h2 h1,
          of "\<lambda>i. if i = 2 then None else Some 1" "\<lambda>a. 99" 0,
          THEN conjunct2, THEN conjunct2, rule_format, of 2]) simp_all
  then show ?thesis using h1 h2 ok by simp
qed

lemma fill_mask_rand_ok:
  assumes "0 \<le> sz" and "sz < 2 ^ 31" and "0 \<le> k"
    and "\<forall>t<nat sz * nat k. hw (pos + t) \<noteq> None"
  shows "fill_mask_rand hw msk sz k pos =
    (Inr (\<lambda>a. if a < nat sz then or_into hw (pos + a * nat k) (nat k) 0 else msk a),
     pos + nat sz * nat k)"
proof -
  have z: "memset msk 0 (byte_count sz) = (\<lambda>a. if a < nat sz then 0 else msk a)"
    using memset_zero_words [OF assms(1,2)] by auto
  have ok': "\<forall>t<nat (sz - 0) * nat k. hw (pos + t) \<noteq> None" using assms(4) by simp
  obtain msk' where
    r: "fill_mask_loop hw (memset msk 0 (byte_count sz)) 0 sz k pos =
        (Inr msk', pos + nat (sz - 0) * nat k)" and
    m: "\<forall>a. msk' a = (if nat 0 \<le> a \<and> a < nat sz
          then or_into hw (pos + (a - nat 0) * nat k) (nat k) (memset msk 0 (byte_count sz) a)
          else memset msk 0 (byte_count sz) a)"
    using fill_mask_loop_ok [OF order_refl assms(3) ok', of "memset msk 0 (byte_count sz)"]
    by blast
  have "msk' = (\<lambda>a. if a < nat sz then or_into hw (pos + a * nat k) (nat k) 0 else msk a)"
    using m by (auto simp: z)
  then show ?thesis using r by (simp add: fill_mask_rand_def)
qed

section \<open>Properties of training\<close>

lemma extends_by_refl: "extends_by w w []"
  by (simp add: extends_by_def)

lemma extends_by_trans:
  "extends_by w w1 a \<Longrightarrow> extends_by w1 w2 b \<Longrightarrow> extends_by w w2 (a @ b)"
  by (simp add: extends_by_def)

lemma extends_by_emit: "extends_by w (emit ev w) [ev]"
  by (simp add: extends_by_def emit_def)

lemma trace_loss_append: "trace_loss ds (a @ b) = trace_loss ds a + trace_loss ds b"
  by (simp add: trace_loss_def)

lemma stepped_append: "stepped (a @ b) = stepped a @ stepped b"
  by (simp add: stepped_def)

lemma train_example_Returns:
  assumes "train_example e ds k dmult bf bso ei m msk w = Returns (l, m', msk') w'"
  shows "\<exists>ev. extends_by w w' [ev] \<and> step_ok e ds dmult ev \<and> l = step_loss ds ev \<and>
    step_index ev = [unat ei]"
proof -
  let ?fs = "example_features ds bf bso ei"
  obtain r pos where f: "fill_mask_rand (rdrand64_step e) msk
      (int ((get_dropout_mask_size e m ?fs + 63) div 64)) (int k) (hw_pos w) = (r, pos)"
    by (cases "fill_mask_rand (rdrand64_step e) msk
      (int ((get_dropout_mask_size e m ?fs + 63) div 64)) (int k) (hw_pos w)")
  show ?thesis
  proof (cases r)
    case (Inl err)
    then show ?thesis using assms f by (simp add: train_example_def Let_def)
  next
    case (Inr mk)
    then show ?thesis using assms f
      by (auto simp: train_example_def Let_def extends_by_def emit_def step_ok_def step_loss_def
          step_index_def)
  qed
qed

lemma train_example_Throws:
  assumes "train_example e ds k dmult bf bso ei m msk w = Throws err w'"
  shows "extends_by w w' []"
proof -
  let ?fs = "example_features ds bf bso ei"
  obtain r pos where f: "fill_mask_rand (rdrand64_step e) msk
      (int ((get_dropout_mask_size e m ?fs + 63) div 64)) (int k) (hw_pos w) = (r, pos)"
    by (cases "fill_mask_rand (rdrand64_step e) msk
      (int ((get_dropout_mask_size e m ?fs + 63) div 64)) (int k) (hw_pos w)")
  show ?thesis
  proof (cases r)
    case (Inl err)
    then show ?thesis using assms f by (auto simp: train_example_def Let_def extends_by_def)
  next
    case (Inr mk)
    then show ?thesis using assms f by (simp add: train_example_def Let_def)
  qed
qed

lemma train_example_not_Diverges:
  "train_example e ds k dmult bf bso ei m msk w \<noteq> Diverges"
  by (simp add: train_example_def Let_def split: prod.splits sum.splits)

lemma train_example_total:
  assumes "entropy_ok e" and "mask_sizes_ok e"
  shows "\<exists>r w'. train_example e ds k dmult bf bso ei m msk w = Returns r w'"
proof -
  let ?fs = "example_features ds bf bso ei"
  let ?sz = "int ((get_dropout_mask_size e m ?fs + 63) div 64)"
  have a: "0 \<le> ?sz" and c: "0 \<le> int k" by simp_all
  have b: "?sz < 2 ^ 31" using assms(2) by (simp add: mask_sizes_ok_def)
  have d: "\<forall>t<nat ?sz * nat (int k). rdrand64_step e (hw_pos w + t) \<noteq> None"
    using assms(1) by (simp add: entropy_ok_def)
  show ?thesis
    unfolding train_example_def Let_def fill_mask_rand_ok [OF a b c d] by simp
qed


lemma unat_succ_below:
  fixes ei :: u64
  assumes "ei < ei_end"
  shows "unat (ei + 1) = Suc (unat ei)" and "unat ei < unat ei_end"
proof -
  show lt: "unat ei < unat ei_end" using assms by (simp add: word_less_nat_alt)
  show "unat (ei + 1) = Suc (unat ei)"
    using lt unsigned_less [of ei_end, where ?'a = nat] by (simp add: unat_word_ariths)
qed

lemma upt_word_step:
  fixes ei :: u64
  assumes "ei < ei_end"
  shows "[unat ei..<unat ei_end] = unat ei # [unat (ei + 1)..<unat ei_end]"
  using unat_succ_below [OF assms] by (simp add: upt_conv_Cons)

lemma upt_word_done:
  fixes ei :: u64
  assumes "\<not> ei < ei_end"
  shows "[unat ei..<unat ei_end] = []"
  using assms by (simp add: word_less_nat_alt)

lemma train_examples_Returns:
  "train_examples e ds k dmult bf bso ei ei_end loss m msk w = Returns (loss', m', msk') w' \<Longrightarrow>
   \<exists>evs. extends_by w w' evs \<and> list_all (step_ok e ds dmult) evs \<and>
     loss' = loss + trace_loss ds evs \<and> stepped evs = [unat ei..<unat ei_end]"
proof (induction e ds k dmult bf bso ei ei_end loss m msk w
    rule: train_examples.induct)
  case (1 e ds k dmult bf bso ei ei_end loss m msk w)
  show ?case
  proof (cases "ei < ei_end")
    case False
    then have "w' = w" "loss' = loss"
      using "1.prems" by (simp_all add: train_examples.simps)
    then show ?thesis
      by (intro exI [of _ "[]"])
        (simp add: extends_by_refl trace_loss_def stepped_def upt_word_done [OF False])
  next
    case True
    show ?thesis
    proof (cases "train_example e ds k dmult bf bso ei m msk w")
      case (Returns r w1)
      obtain l m1 msk1 where r: "r = (l, m1, msk1)" by (cases r) auto
      have rec: "train_examples e ds k dmult bf bso (ei + 1) ei_end (loss + l) m1 msk1 w1 =
          Returns (loss', m', msk') w'"
        using "1.prems" True Returns r by (simp add: train_examples.simps)
      obtain ev where ev: "extends_by w w1 [ev]" "step_ok e ds dmult ev" "l = step_loss ds ev"
          "step_index ev = [unat ei]"
        using train_example_Returns [of e ds k dmult bf bso ei m msk w l m1 msk1 w1] Returns r
        by auto
      obtain evs where evs: "extends_by w1 w' evs" "list_all (step_ok e ds dmult) evs"
          "loss' = loss + l + trace_loss ds evs" "stepped evs = [unat (ei + 1)..<unat ei_end]"
        using "1.IH" [OF True Returns r [symmetric] refl rec] by auto
      show ?thesis
        using ev evs extends_by_trans [OF ev(1) evs(1)] upt_word_step [OF True]
        by (intro exI [of _ "ev # evs"]) (simp add: trace_loss_def stepped_def)
    next
      case (Throws err w1)
      then show ?thesis using "1.prems" True by (simp add: train_examples.simps)
    next
      case Diverges
      then show ?thesis using "1.prems" True by (simp add: train_examples.simps)
    qed
  qed
qed


lemma train_examples_Throws:
  "train_examples e ds k dmult bf bso ei ei_end loss m msk w = Throws err w' \<Longrightarrow>
   \<exists>evs. extends_by w w' evs \<and> list_all (step_ok e ds dmult) evs"
proof (induction e ds k dmult bf bso ei ei_end loss m msk w
    rule: train_examples.induct)
  case (1 e ds k dmult bf bso ei ei_end loss m msk w)
  show ?case
  proof (cases "ei < ei_end")
    case False
    then show ?thesis using "1.prems" by (simp add: train_examples.simps)
  next
    case True
    show ?thesis
    proof (cases "train_example e ds k dmult bf bso ei m msk w")
      case (Returns r w1)
      obtain l m1 msk1 where r: "r = (l, m1, msk1)" by (cases r) auto
      have rec: "train_examples e ds k dmult bf bso (ei + 1) ei_end (loss + l) m1 msk1 w1 =
          Throws err w'"
        using "1.prems" True Returns r by (simp add: train_examples.simps)
      obtain ev where ev: "extends_by w w1 [ev]" "step_ok e ds dmult ev"
        using train_example_Returns [of e ds k dmult bf bso ei m msk w l m1 msk1 w1] Returns r
        by auto
      obtain evs where evs: "extends_by w1 w' evs" "list_all (step_ok e ds dmult) evs"
        using "1.IH" [OF True Returns r [symmetric] refl rec] by auto
      show ?thesis
        using ev evs extends_by_trans [OF ev(1) evs(1)]
        by (intro exI [of _ "ev # evs"]) simp
    next
      case (Throws err1 w1)
      then have "w1 = w'" using "1.prems" True by (simp add: train_examples.simps)
      then show ?thesis
        using train_example_Throws [of e ds k dmult bf bso ei m msk w err1 w1] Throws
        by (intro exI [of _ "[]"]) simp
    next
      case Diverges
      then show ?thesis using "1.prems" True by (simp add: train_examples.simps)
    qed
  qed
qed

lemma train_examples_total:
  "entropy_ok e \<Longrightarrow> mask_sizes_ok e \<Longrightarrow>
   \<exists>r w'. train_examples e ds k dmult bf bso ei ei_end loss m msk w = Returns r w'"
proof (induction e ds k dmult bf bso ei ei_end loss m msk w
    rule: train_examples.induct)
  case (1 e ds k dmult bf bso ei ei_end loss m msk w)
  note ok = "1.prems"
  show ?case
  proof (cases "ei < ei_end")
    case False
    then show ?thesis by (simp add: train_examples.simps)
  next
    case True
    obtain r w1 where ex: "train_example e ds k dmult bf bso ei m msk w = Returns r w1"
      using train_example_total [OF ok] by blast
    obtain l m1 msk1 where r: "r = (l, m1, msk1)" by (cases r) auto
    obtain r' w' where rec:
      "train_examples e ds k dmult bf bso (ei + 1) ei_end (loss + l) m1 msk1 w1 = Returns r' w'"
      using "1.IH" [OF True ex r [symmetric] refl ok] by blast
    have "train_examples e ds k dmult bf bso ei ei_end loss m msk w =
        train_examples e ds k dmult bf bso (ei + 1) ei_end (loss + l) m1 msk1 w1"
      by (subst train_examples.simps) (simp add: True ex r)
    then show ?thesis using rec by metis
  qed
qed

lemma train_mini_batches_Returns:
  "train_mini_batches e ds k dmult bf bso mbs loss m msk w = Returns (loss', m', msk') w' \<Longrightarrow>
   \<exists>evs. extends_by w w' evs \<and> list_all (step_ok e ds dmult) evs \<and>
     loss' = loss + trace_loss ds evs \<and>
     stepped evs = concat (map examples_of mbs)"
proof (induction mbs arbitrary: loss m msk w)
  case Nil
  then show ?case
    by (intro exI [of _ "[]"]) (simp add: extends_by_refl trace_loss_def stepped_def)
next
  case (Cons mb mbs)
  show ?case
  proof (cases "train_examples e ds k dmult bf bso (fst mb) (snd mb) loss m msk w")
    case (Returns r w1)
    obtain l1 m1 msk1 where r: "r = (l1, m1, msk1)" by (cases r) auto
    have rec: "train_mini_batches e ds k dmult bf bso mbs l1 m1 msk1 w1 =
        Returns (loss', m', msk') w'"
      using Cons.prems Returns r by simp
    obtain a where a: "extends_by w w1 a" "list_all (step_ok e ds dmult) a"
        "l1 = loss + trace_loss ds a" "stepped a = [unat (fst mb)..<unat (snd mb)]"
      using train_examples_Returns [of e ds k dmult bf bso "fst mb" "snd mb" loss m msk w
          l1 m1 msk1 w1] Returns r by auto
    obtain b where b: "extends_by w1 w' b" "list_all (step_ok e ds dmult) b"
        "loss' = l1 + trace_loss ds b"
        "stepped b = concat (map examples_of mbs)"
      using Cons.IH [OF rec] by auto
    have "stepped a = examples_of mb" using a(4) by (simp add: examples_of_def)
    then show ?thesis
      using a(2,3) b extends_by_trans [OF a(1) b(1)]
      by (intro exI [of _ "a @ b"]) (simp add: trace_loss_append stepped_append)
  next
    case (Throws err w1)
    then show ?thesis using Cons.prems by simp
  next
    case Diverges
    then show ?thesis using Cons.prems by simp
  qed
qed

lemma train_mini_batches_Throws:
  "train_mini_batches e ds k dmult bf bso mbs loss m msk w = Throws err w' \<Longrightarrow>
   \<exists>evs. extends_by w w' evs \<and> list_all (step_ok e ds dmult) evs"
proof (induction mbs arbitrary: loss m msk w)
  case Nil
  then show ?case by simp
next
  case (Cons mb mbs)
  show ?case
  proof (cases "train_examples e ds k dmult bf bso (fst mb) (snd mb) loss m msk w")
    case (Returns r w1)
    obtain l1 m1 msk1 where r: "r = (l1, m1, msk1)" by (cases r) auto
    have rec: "train_mini_batches e ds k dmult bf bso mbs l1 m1 msk1 w1 = Throws err w'"
      using Cons.prems Returns r by simp
    obtain a where a: "extends_by w w1 a" "list_all (step_ok e ds dmult) a"
      using train_examples_Returns [of e ds k dmult bf bso "fst mb" "snd mb" loss m msk w
          l1 m1 msk1 w1] Returns r by auto
    obtain b where b: "extends_by w1 w' b" "list_all (step_ok e ds dmult) b"
      using Cons.IH [OF rec] by auto
    show ?thesis
      using a b extends_by_trans [OF a(1) b(1)] by (intro exI [of _ "a @ b"]) simp
  next
    case (Throws err1 w1)
    then have "train_examples e ds k dmult bf bso (fst mb) (snd mb) loss m msk w = Throws err w'"
      using Cons.prems by simp
    then show ?thesis by (rule train_examples_Throws)
  next
    case Diverges
    then show ?thesis using Cons.prems by simp
  qed
qed

lemma train_mini_batches_total:
  assumes "entropy_ok e" and "mask_sizes_ok e"
  shows "\<exists>r w'. train_mini_batches e ds k dmult bf bso mbs loss m msk w = Returns r w'"
proof (induction mbs arbitrary: loss m msk w)
  case Nil
  then show ?case by simp
next
  case (Cons mb mbs)
  obtain r w1 where ex: "train_examples e ds k dmult bf bso (fst mb) (snd mb) loss m msk w =
      Returns r w1"
    using train_examples_total [OF assms] by blast
  obtain l1 m1 msk1 where r: "r = (l1, m1, msk1)" by (cases r) auto
  obtain r' w' where "train_mini_batches e ds k dmult bf bso mbs l1 m1 msk1 w1 = Returns r' w'"
    using Cons.IH [of l1 m1 msk1 w1] by blast
  then have "train_mini_batches e ds k dmult bf bso (mb # mbs) loss m msk w = Returns r' w'"
    using ex r by simp
  then show ?case by metis
qed


lemma upt_split:
  fixes i j k :: nat
  assumes "i \<le> j" and "j \<le> k"
  shows "[i..<j] @ [j..<k] = [i..<k]"
proof -
  obtain d where "k = j + d" using assms(2) le_Suc_ex by blast
  then show ?thesis using upt_add_eq_append [OF assms(1), of d] by simp
qed

lemma concat_contiguous:
  "contiguous_from lo hi rs \<Longrightarrow> concat (map (\<lambda>r. [fst r..<snd r]) rs) = [lo..<hi]"
proof (induction rs arbitrary: lo)
  case Nil
  then show ?case by simp
next
  case (Cons r rs)
  then have "concat (map (\<lambda>r. [fst r..<snd r]) rs) = [snd r..<hi]" and "fst r = lo"
    and "fst r < snd r" by simp_all
  moreover have "snd r \<le> hi" using contiguous_cover [of "snd r" hi rs] Cons.prems by simp
  ultimately show ?case using upt_split [of lo "snd r" hi] by simp
qed

lemma examples_of_ranges:
  assumes "hi < 2 ^ 64" and "lo \<le> hi" and "0 < cap"
  shows "concat (map examples_of (map to_u64 (ranges cap lo hi))) = [lo..<hi]"
proof -
  have "map examples_of (map to_u64 (ranges cap lo hi)) =
      map (\<lambda>r. [fst r..<snd r]) (map of_u64 (map to_u64 (ranges cap lo hi)))"
    by (simp add: examples_of_def of_u64_def)
  also have "\<dots> = map (\<lambda>r. [fst r..<snd r]) (ranges cap lo hi)"
    by (simp only: map_of_u64_ranges [OF assms(1)])
  finally have m: "map examples_of (map to_u64 (ranges cap lo hi)) =
      map (\<lambda>r. [fst r..<snd r]) (ranges cap lo hi)" .
  show ?thesis
    unfolding m by (rule concat_contiguous [OF ranges_contiguous [OF assms(2,3)]])
qed

lemma mset_concat_map_cong:
  assumes "mset xs = mset ys"
  shows "mset (concat (map f xs)) = mset (concat (map f ys))"
proof -
  have "mset (concat (map f zs)) = sum_mset (image_mset (\<lambda>z. mset (f z)) (mset zs))" for zs
    by (induction zs) auto
  then show ?thesis using assms by simp
qed

lemma sum_list_mset_cong:
  fixes f :: "'a \<Rightarrow> 'b::comm_monoid_add"
  assumes "mset xs = mset ys"
  shows "sum_list (map f xs) = sum_list (map f ys)"
proof -
  have "sum_list (map f zs) = sum_mset (image_mset f (mset zs))" for zs
    by (induction zs) auto
  then show ?thesis using assms by simp
qed

lemma std_shuffle_extends:
  assumes "std_shuffle e xs w = (ys, w')"
  shows "extends_by w w' []" and "mset ys = mset xs" and "hw_pos w' = hw_pos w"
proof -
  have w': "w' = w\<lparr>rnd_pos := rnd_pos w + (length xs - 1)\<rparr>"
    using std_shuffle_sys [of e xs w] assms by simp
  show "extends_by w w' []" and "hw_pos w' = hw_pos w"
    by (simp_all add: w' extends_by_def)
  show "mset ys = mset xs" using std_shuffle_mset [of e xs w] assms by simp
qed

lemma train_batch_Returns:
  assumes "train_batch e ds k dmult b m w = Returns ((loss, c), m') w'"
  shows "\<exists>evs mbs. extends_by w w' evs \<and> list_all (step_ok e ds dmult) evs \<and>
    loss = trace_loss ds evs \<and> c = snd b - fst b \<and>
    generate_mini_batches (fst b) (snd b) = Some mbs \<and>
    mset (stepped evs) = mset (concat (map examples_of mbs))"
proof (cases "generate_mini_batches (fst b) (snd b)")
  case None
  then show ?thesis using assms by (simp add: train_batch_def Let_def)
next
  case (Some mbs)
  let ?bso = "offsets (index ds) ! unat (fst b)"
  let ?beo = "offsets (index ds) ! unat (snd b)"
  let ?rd = "EvReadBatch (data_file_name ds) ?bso ?beo"
  let ?bf = "read_batch e (data_file_name ds) ?bso ?beo"
  obtain sh w2 where sh: "std_shuffle e mbs (emit ?rd w) = (sh, w2)"
    by (cases "std_shuffle e mbs (emit ?rd w)")
  note s = std_shuffle_extends [OF sh]
  show ?thesis
  proof (cases "train_mini_batches e ds k dmult ?bf ?bso sh 0 m (stack_garbage e) w2")
    case (Returns r w3)
    obtain l m3 msk3 where r: "r = (l, m3, msk3)" by (cases r) auto
    have eq: "w3 = w'" "l = loss" "c = snd b - fst b"
      using assms Some sh Returns r by (simp_all add: train_batch_def Let_def)
    obtain evs where evs: "extends_by w2 w3 evs" "list_all (step_ok e ds dmult) evs"
        "l = 0 + trace_loss ds evs" "stepped evs = concat (map examples_of sh)"
      using train_mini_batches_Returns [of e ds k dmult ?bf ?bso sh 0 m "stack_garbage e" w2
          l m3 msk3 w3] Returns r by auto
    have x: "extends_by w w' (?rd # evs)"
      using extends_by_trans [OF extends_by_trans [OF extends_by_emit [of w ?rd] s(1)] evs(1)]
      by (simp add: eq)
    have st: "stepped (?rd # evs) = stepped evs" by (simp add: stepped_def step_index_def)
    have "mset (stepped (?rd # evs)) = mset (concat (map examples_of mbs))"
      unfolding st evs(4) by (rule mset_concat_map_cong [OF s(2)])
    moreover have "trace_loss ds (?rd # evs) = trace_loss ds evs"
      by (simp add: trace_loss_def step_loss_def)
    moreover have "list_all (step_ok e ds dmult) (?rd # evs)"
      using evs(2) by (simp add: step_ok_def)
    ultimately show ?thesis using x evs(3) eq Some by (intro exI [of _ "?rd # evs"]) simp
  next
    case (Throws err w3)
    then show ?thesis using assms Some sh by (simp add: train_batch_def Let_def)
  next
    case Diverges
    then show ?thesis using assms Some sh by (simp add: train_batch_def Let_def)
  qed
qed

lemma train_batch_Throws:
  assumes "train_batch e ds k dmult b m w = Throws err w'"
  shows "\<exists>evs. extends_by w w' evs \<and> list_all (step_ok e ds dmult) evs"
proof (cases "generate_mini_batches (fst b) (snd b)")
  case None
  then show ?thesis using assms by (simp add: train_batch_def Let_def)
next
  case (Some mbs)
  let ?bso = "offsets (index ds) ! unat (fst b)"
  let ?beo = "offsets (index ds) ! unat (snd b)"
  let ?rd = "EvReadBatch (data_file_name ds) ?bso ?beo"
  let ?bf = "read_batch e (data_file_name ds) ?bso ?beo"
  obtain sh w2 where sh: "std_shuffle e mbs (emit ?rd w) = (sh, w2)"
    by (cases "std_shuffle e mbs (emit ?rd w)")
  note s = std_shuffle_extends [OF sh]
  show ?thesis
  proof (cases "train_mini_batches e ds k dmult ?bf ?bso sh 0 m (stack_garbage e) w2")
    case (Returns r w3)
    then show ?thesis using assms Some sh
      by (simp add: train_batch_def Let_def split: prod.splits)
  next
    case (Throws err3 w3)
    then have eq: "w3 = w'" using assms Some sh by (simp add: train_batch_def Let_def)
    obtain evs where evs: "extends_by w2 w3 evs" "list_all (step_ok e ds dmult) evs"
      using train_mini_batches_Throws [OF Throws] by auto
    have x: "extends_by w w' (?rd # evs)"
      using extends_by_trans [OF extends_by_trans [OF extends_by_emit [of w ?rd] s(1)] evs(1)]
      by (simp add: eq)
    moreover have "list_all (step_ok e ds dmult) (?rd # evs)"
      using evs(2) by (simp add: step_ok_def)
    ultimately show ?thesis by blast
  next
    case Diverges
    then show ?thesis using assms Some sh by (simp add: train_batch_def Let_def)
  qed
qed

lemma train_batch_total:
  assumes "entropy_ok e" and "mask_sizes_ok e" and "unat (snd b) + 24 \<le> 2 ^ 64"
  shows "\<exists>r w'. train_batch e ds k dmult b m w = Returns r w'"
proof -
  let ?bso = "offsets (index ds) ! unat (fst b)"
  let ?beo = "offsets (index ds) ! unat (snd b)"
  let ?rd = "EvReadBatch (data_file_name ds) ?bso ?beo"
  let ?bf = "read_batch e (data_file_name ds) ?bso ?beo"
  obtain mbs where mbs: "generate_mini_batches (fst b) (snd b) = Some mbs"
    using generate_mini_batches_ranges [OF assms(3)] by blast
  obtain sh w2 where sh: "std_shuffle e mbs (emit ?rd w) = (sh, w2)"
    by (cases "std_shuffle e mbs (emit ?rd w)")
  obtain r w3 where "train_mini_batches e ds k dmult ?bf ?bso sh 0 m (stack_garbage e) w2 =
      Returns r w3"
    using train_mini_batches_total [OF assms(1,2)] by blast
  then show ?thesis using mbs sh by (cases r) (simp add: train_batch_def Let_def)
qed


lemma bounded_batch_examples:
  assumes "fst b \<le> snd b" and "unat (snd b) + 24 \<le> 2 ^ 64"
    and "generate_mini_batches (fst b) (snd b) = Some mbs"
  shows "concat (map examples_of mbs) = examples_of b"
proof -
  have "mbs = map to_u64 (ranges 24 (unat (fst b)) (unat (snd b)))"
    using generate_mini_batches_ranges [OF assms(2), of "fst b"] assms(3) by simp
  moreover have "unat (snd b) < 2 ^ 64" using assms(2) by simp
  moreover have "unat (fst b) \<le> unat (snd b)" using assms(1) by (simp add: word_le_nat_alt)
  ultimately show ?thesis
    using examples_of_ranges [of "unat (snd b)" "unat (fst b)" 24] by (simp add: examples_of_def)
qed

lemma train_batches_Returns:
  "train_batches e ds k dmult bs m w = Returns (cs, m') w' \<Longrightarrow>
   \<exists>evs. extends_by w w' evs \<and> list_all (step_ok e ds dmult) evs \<and>
     sum_list (map fst cs) = trace_loss ds evs \<and>
     map snd cs = map (\<lambda>b. snd b - fst b) bs \<and>
     ((\<forall>b\<in>set bs. fst b \<le> snd b \<and> unat (snd b) + 24 \<le> 2 ^ 64) \<longrightarrow>
        mset (stepped evs) = mset (concat (map examples_of bs)))"
proof (induction bs arbitrary: m w cs)
  case Nil
  then show ?case
    by (intro exI [of _ "[]"]) (auto simp: extends_by_refl trace_loss_def stepped_def)
next
  case (Cons b bs)
  show ?case
  proof (cases "train_batch e ds k dmult b m w")
    case (Returns r w1)
    obtain l c m1 where r: "r = ((l, c), m1)" by (cases r) auto
    show ?thesis
    proof (cases "train_batches e ds k dmult bs m1 w1")
      case R2: (Returns r2 w2)
      obtain cs2 m2 where r2: "r2 = (cs2, m2)" by (cases r2) auto
      have eq: "cs = (l, c) # cs2" "w2 = w'" "m2 = m'"
        using Cons.prems Returns r R2 r2 by simp_all
      have rec: "train_batches e ds k dmult bs m1 w1 = Returns (cs2, m') w'"
        using R2 r2 eq by simp
      obtain a mbs where a: "extends_by w w1 a" "list_all (step_ok e ds dmult) a"
          "l = trace_loss ds a" "c = snd b - fst b"
          "generate_mini_batches (fst b) (snd b) = Some mbs"
          "mset (stepped a) = mset (concat (map examples_of mbs))"
        using train_batch_Returns [of e ds k dmult b m w l c m1 w1] Returns r by auto
      obtain d where d: "extends_by w1 w2 d" "list_all (step_ok e ds dmult) d"
          "sum_list (map fst cs2) = trace_loss ds d"
          "map snd cs2 = map (\<lambda>b. snd b - fst b) bs"
          "(\<forall>b\<in>set bs. fst b \<le> snd b \<and> unat (snd b) + 24 \<le> 2 ^ 64) \<longrightarrow>
             mset (stepped d) = mset (concat (map examples_of bs))"
        using Cons.IH [OF rec] eq by auto
      have st: "mset (stepped (a @ d)) = mset (concat (map examples_of (b # bs)))"
        if "\<forall>x\<in>set (b # bs). fst x \<le> snd x \<and> unat (snd x) + 24 \<le> 2 ^ 64"
      proof -
        have "concat (map examples_of mbs) = examples_of b"
          using bounded_batch_examples [of b mbs] that a(5) by simp
        then show ?thesis using a(6) d(5) that by (simp add: stepped_append)
      qed
      show ?thesis
        using a(2,3,4) d(2,3,4) extends_by_trans [OF a(1) d(1)] st
        by (intro exI [of _ "a @ d"]) (simp add: eq trace_loss_append)
    next
      case (Throws err w2)
      then show ?thesis using Cons.prems Returns r by simp
    next
      case Diverges
      then show ?thesis using Cons.prems Returns r by simp
    qed
  next
    case (Throws err w1)
    then show ?thesis using Cons.prems by simp
  next
    case Diverges
    then show ?thesis using Cons.prems by simp
  qed
qed

lemma train_batches_Throws:
  "train_batches e ds k dmult bs m w = Throws err w' \<Longrightarrow>
   \<exists>evs. extends_by w w' evs \<and> list_all (step_ok e ds dmult) evs"
proof (induction bs arbitrary: m w)
  case Nil
  then show ?case by simp
next
  case (Cons b bs)
  show ?case
  proof (cases "train_batch e ds k dmult b m w")
    case (Returns r w1)
    obtain l c m1 where r: "r = ((l, c), m1)" by (cases r) auto
    have rec: "train_batches e ds k dmult bs m1 w1 = Throws err w'"
      using Cons.prems Returns r
      by (cases "train_batches e ds k dmult bs m1 w1") (simp_all split: prod.splits)
    obtain a where a: "extends_by w w1 a" "list_all (step_ok e ds dmult) a"
      using train_batch_Returns [of e ds k dmult b m w l c m1 w1] Returns r by auto
    obtain d where d: "extends_by w1 w' d" "list_all (step_ok e ds dmult) d"
      using Cons.IH [OF rec] by auto
    show ?thesis
      using a d extends_by_trans [OF a(1) d(1)] by (intro exI [of _ "a @ d"]) simp
  next
    case (Throws err1 w1)
    then have "train_batch e ds k dmult b m w = Throws err w'" using Cons.prems by simp
    then show ?thesis by (rule train_batch_Throws)
  next
    case Diverges
    then show ?thesis using Cons.prems by simp
  qed
qed

lemma train_batches_total:
  assumes "entropy_ok e" and "mask_sizes_ok e"
  shows "\<forall>b\<in>set bs. unat (snd b) + 24 \<le> 2 ^ 64 \<Longrightarrow>
    \<exists>r w'. train_batches e ds k dmult bs m w = Returns r w'"
proof (induction bs arbitrary: m w)
  case Nil
  then show ?case by simp
next
  case (Cons b bs)
  have hd: "unat (snd b) + 24 \<le> 2 ^ 64" and tl: "\<forall>b\<in>set bs. unat (snd b) + 24 \<le> 2 ^ 64"
    using Cons.prems by simp_all
  obtain r w1 where ex: "train_batch e ds k dmult b m w = Returns r w1"
    using train_batch_total [OF assms hd] by blast
  obtain c m1 where r: "r = (c, m1)" by (cases r) auto
  obtain r2 w2 where ex2: "train_batches e ds k dmult bs m1 w1 = Returns r2 w2"
    using Cons.IH [OF tl] by blast
  obtain cs2 m2 where r2: "r2 = (cs2, m2)" by (cases r2) auto
  have "train_batches e ds k dmult (b # bs) m w = Returns (c # cs2, m2) w2"
    using ex r ex2 r2 by simp
  then show ?case by metis
qed

lemma omp_reduction_sum:
  fixes cs :: "'a::comm_monoid_add list"
  assumes "0 < n"
  shows "omp_reduction n sched cs = sum_list cs"
proof -
  let ?S = "{0..<length cs}"
  have inner: "sum_list (map (\<lambda>bi. cs ! bi) (filter (\<lambda>bi. sched bi mod n = t) [0..<length cs])) =
      (\<Sum>bi\<in>{bi\<in>?S. sched bi mod n = t}. cs ! bi)" for t
    by (subst sum_list_distinct_conv_sum_set) (auto intro!: sum.cong)
  have "omp_reduction n sched cs =
      (\<Sum>t\<in>{0..<n}. \<Sum>bi\<in>{bi\<in>?S. sched bi mod n = t}. cs ! bi)"
    unfolding omp_reduction_def inner
    by (subst sum_list_distinct_conv_sum_set) (auto intro!: sum.cong)
  also have "\<dots> = (\<Sum>bi\<in>?S. cs ! bi)"
    by (rule sum.group) (use assms in auto)
  also have "\<dots> = sum_list cs" by (simp add: sum_list_sum_nth)
  finally show ?thesis .
qed


lemma planned_batch_bounds:
  assumes "hi < 2 ^ 64" and "lo \<le> hi" and "0 < cap"
    and "b \<in> set (map to_u64 (ranges cap lo hi))"
  shows "fst b \<le> snd b" and "unat (snd b) \<le> hi"
proof -
  obtain r where r: "r \<in> set (ranges cap lo hi)" "b = to_u64 r" using assms(4) by auto
  have "unat (fst b) < unat (snd b)"
    using ranges_u64_properties(5) [OF assms(1-3)] assms(4) by blast
  then show "fst b \<le> snd b" by (simp add: word_le_nat_alt)
  have "snd r \<le> hi" using ranges_bounded [OF r(1)] by simp
  then show "unat (snd b) \<le> hi"
    using assms(1) r(2) by (simp add: to_u64_def unat_of_nat take_bit_nat_eq_self)
qed

lemma contiguous_sizes:
  "contiguous_from lo hi rs \<Longrightarrow> sum_list (map (\<lambda>r. snd r - fst r) rs) = hi - lo"
proof (induction rs arbitrary: lo)
  case Nil
  then show ?case by simp
next
  case (Cons r rs)
  then have "sum_list (map (\<lambda>r. snd r - fst r) rs) = hi - snd r" and "fst r = lo"
    and "fst r < snd r" by simp_all
  moreover have "snd r \<le> hi" using contiguous_cover [of "snd r" hi rs] Cons.prems by simp
  ultimately show ?case by simp
qed

lemma planned_sizes_sum:
  assumes "lo \<le> hi" and "0 < cap"
  shows "sum_list (map (\<lambda>b. snd b - fst b) (map to_u64 (ranges cap lo hi))) =
    (word_of_nat (hi - lo) :: u64)"
proof -
  have c: "contiguous_from lo hi (ranges cap lo hi)" by (rule ranges_contiguous [OF assms])
  have "snd (to_u64 r) - fst (to_u64 r) = (word_of_nat (snd r - fst r) :: u64)"
    if "r \<in> set (ranges cap lo hi)" for r
    using contiguous_nonempty [OF c that] by (simp add: to_u64_def of_nat_diff less_imp_le)
  then have m: "map (\<lambda>b. snd b - fst b) (map to_u64 (ranges cap lo hi)) =
      map (\<lambda>r. (word_of_nat (snd r - fst r) :: u64)) (ranges cap lo hi)"
    by simp
  have s: "sum_list (map (\<lambda>r. (word_of_nat (f r) :: u64)) xs) =
      word_of_nat (sum_list (map f xs))" for f :: "nat \<times> nat \<Rightarrow> nat" and xs
    by (induction xs) simp_all
  show ?thesis unfolding m s contiguous_sizes [OF c] ..
qed


lemma train_on_dataset_frame_Returns:
  assumes "train_on_dataset e m ds k w = Returns (loss, m') w'"
  shows "\<exists>evs c x. extends_by w w' (EvTrain k # evs @ [EvReport c x]) \<and>
    list_all (step_ok e ds (dropout_mult_of k)) evs"
proof (cases "generate_batches e ds True (emit (EvTrain k) w)")
  case None
  then show ?thesis using assms by (simp add: train_on_dataset_def Let_def)
next
  case (Some p)
  obtain bs w2 where p: "p = (bs, w2)" by (cases p) auto
  have "\<exists>xs. std_shuffle e xs (emit (EvTrain k) w) = (bs, w2)"
    using Some p by (auto simp: generate_batches_def split: option.splits)
  then have x2: "extends_by (emit (EvTrain k) w) w2 []"
    using std_shuffle_extends(1) by blast
  show ?thesis
  proof (cases "train_batches e ds k (dropout_mult_of k) bs m w2")
    case (Returns r w3)
    obtain cs m3 where r: "r = (cs, m3)" by (cases r) auto
    obtain c x where w': "w' = emit (EvReport c x) w3"
      using assms Some p Returns r by (auto simp: train_on_dataset_def Let_def)
    obtain evs where evs: "extends_by w2 w3 evs" "list_all (step_ok e ds (dropout_mult_of k)) evs"
      using train_batches_Returns [of e ds k "dropout_mult_of k" bs m w2 cs m3 w3] Returns r
      by auto
    have "extends_by w w' ((([EvTrain k] @ []) @ evs) @ [EvReport c x])"
      unfolding w'
      by (rule extends_by_trans [OF extends_by_trans [OF extends_by_trans
            [OF extends_by_emit x2] evs(1)] extends_by_emit])
    then show ?thesis using evs(2) by auto
  next
    case (Throws err w3)
    then show ?thesis using assms Some p by (simp add: train_on_dataset_def Let_def)
  next
    case Diverges
    then show ?thesis using assms Some p by (simp add: train_on_dataset_def Let_def)
  qed
qed

lemma train_on_dataset_frame_Throws:
  assumes "train_on_dataset e m ds k w = Throws err w'"
  shows "\<exists>evs. extends_by w w' (EvTrain k # evs) \<and>
    list_all (step_ok e ds (dropout_mult_of k)) evs"
proof (cases "generate_batches e ds True (emit (EvTrain k) w)")
  case None
  then show ?thesis using assms by (simp add: train_on_dataset_def Let_def)
next
  case (Some p)
  obtain bs w2 where p: "p = (bs, w2)" by (cases p) auto
  have "\<exists>xs. std_shuffle e xs (emit (EvTrain k) w) = (bs, w2)"
    using Some p by (auto simp: generate_batches_def split: option.splits)
  then have x2: "extends_by (emit (EvTrain k) w) w2 []"
    using std_shuffle_extends(1) by blast
  show ?thesis
  proof (cases "train_batches e ds k (dropout_mult_of k) bs m w2")
    case (Returns r w3)
    then show ?thesis using assms Some p
      by (simp add: train_on_dataset_def Let_def split: prod.splits)
  next
    case (Throws err3 w3)
    then have w': "w3 = w'" using assms Some p by (simp add: train_on_dataset_def Let_def)
    obtain evs where evs: "extends_by w2 w3 evs" "list_all (step_ok e ds (dropout_mult_of k)) evs"
      using train_batches_Throws [OF Throws] by auto
    have "extends_by w w' (([EvTrain k] @ []) @ evs)"
      unfolding w' [symmetric]
      by (rule extends_by_trans [OF extends_by_trans [OF extends_by_emit x2] evs(1)])
    then show ?thesis using evs(2) by auto
  next
    case Diverges
    then show ?thesis using assms Some p by (simp add: train_on_dataset_def Let_def)
  qed
qed

lemma train_on_dataset_Returns:
  assumes r: "train_on_dataset e m ds k w = Returns (loss, m') w'"
    and n: "unat (n_examples (index ds)) + 20000 \<le> 2 ^ 64"
    and t: "0 < omp_threads w"
  shows "\<exists>evs. extends_by w w'
      (EvTrain k # evs @ [EvReport (unat (n_examples (index ds)))
                            (loss / real (unat (n_examples (index ds))))]) \<and>
    list_all (step_ok e ds (dropout_mult_of k)) evs \<and>
    loss = trace_loss ds evs \<and>
    mset (stepped evs) = mset [0..<unat (n_examples (index ds))]"
proof -
  let ?n = "unat (n_examples (index ds))"
  let ?B = "map to_u64 (ranges 20000 0 ?n)"
  let ?w1 = "emit (EvTrain k) w"
  have n64: "?n < 2 ^ 64" using n by simp
  have z: "0 \<le> ?n" and c: "(0 :: nat) < 20000" by simp_all
  obtain bs w2 where sh: "std_shuffle e ?B ?w1 = (bs, w2)" by (cases "std_shuffle e ?B ?w1")
  note s = std_shuffle_extends [OF sh]
  have gb: "generate_batches e ds True ?w1 = Some (bs, w2)"
    using generate_batches_shuffled [OF n, of e ?w1] sh by simp
  have bnd: "\<forall>b\<in>set bs. fst b \<le> snd b \<and> unat (snd b) + 24 \<le> 2 ^ 64"
  proof
    fix b assume "b \<in> set bs"
    then have "b \<in> set ?B" using s(2) by (metis mset_eq_setD)
    then show "fst b \<le> snd b \<and> unat (snd b) + 24 \<le> 2 ^ 64"
      using planned_batch_bounds [OF n64 z c, of b] n by simp
  qed
  show ?thesis
  proof (cases "train_batches e ds k (dropout_mult_of k) bs m w2")
    case (Returns r3 w3)
    obtain cs m3 where r3: "r3 = (cs, m3)" by (cases r3) auto
    let ?loss = "omp_reduction (omp_threads w3) (omp_schedule e) (map fst cs)"
    let ?cnt = "omp_reduction (omp_threads w3) (omp_schedule e) (map snd cs)"
    have res: "loss = ?loss" "w' = emit (EvReport (unat ?cnt) (?loss / real (unat ?cnt))) w3"
      using r gb Returns r3 by (auto simp: train_on_dataset_def Let_def)
    obtain evs where evs: "extends_by w2 w3 evs" "list_all (step_ok e ds (dropout_mult_of k)) evs"
        "sum_list (map fst cs) = trace_loss ds evs"
        "map snd cs = map (\<lambda>b. snd b - fst b) bs"
        "mset (stepped evs) = mset (concat (map examples_of bs))"
      using train_batches_Returns [of e ds k "dropout_mult_of k" bs m w2 cs m3 w3] Returns r3 bnd
      by auto
    have th: "0 < omp_threads w3"
      using t evs(1) s(1) by (simp add: extends_by_def emit_def)
    have "?loss = sum_list (map fst cs)" by (rule omp_reduction_sum [OF th])
    then have l: "?loss = trace_loss ds evs" using evs(3) by simp
    have "?cnt = sum_list (map snd cs)" by (rule omp_reduction_sum [OF th])
    also have "\<dots> = sum_list (map (\<lambda>b. snd b - fst b) bs)"
      by (simp only: evs(4))
    also have "\<dots> = sum_list (map (\<lambda>b. snd b - fst b) ?B)"
      by (rule sum_list_mset_cong [OF s(2)])
    also have "\<dots> = word_of_nat ?n" using planned_sizes_sum [OF z c] by simp
    finally have cnt: "unat ?cnt = ?n" by simp
    have "mset (stepped evs) = mset (concat (map examples_of ?B))"
      unfolding evs(5) by (rule mset_concat_map_cong [OF s(2)])
    then have st: "mset (stepped evs) = mset [0..<?n]"
      using examples_of_ranges [OF n64 z c] by simp
    have "extends_by w w' ((([EvTrain k] @ []) @ evs) @ [EvReport ?n (loss / real ?n)])"
      unfolding res(2) cnt res(1) [symmetric]
      by (rule extends_by_trans [OF extends_by_trans [OF extends_by_trans
            [OF extends_by_emit s(1)] evs(1)] extends_by_emit])
    then show ?thesis using evs(2) l st res(1) by auto
  next
    case (Throws err w3)
    then show ?thesis using r gb by (simp add: train_on_dataset_def Let_def)
  next
    case Diverges
    then show ?thesis using r gb by (simp add: train_on_dataset_def Let_def)
  qed
qed

lemma train_on_dataset_total:
  assumes "entropy_ok e" and "mask_sizes_ok e"
    and n: "unat (n_examples (index ds)) + 20000 \<le> 2 ^ 64"
  shows "\<exists>loss m' w'. train_on_dataset e m ds k w = Returns (loss, m') w'"
proof -
  let ?n = "unat (n_examples (index ds))"
  let ?B = "map to_u64 (ranges 20000 0 ?n)"
  let ?w1 = "emit (EvTrain k) w"
  have n64: "?n < 2 ^ 64" using n by simp
  have z: "0 \<le> ?n" and c: "(0 :: nat) < 20000" by simp_all
  obtain bs w2 where sh: "std_shuffle e ?B ?w1 = (bs, w2)" by (cases "std_shuffle e ?B ?w1")
  note s = std_shuffle_extends [OF sh]
  have gb: "generate_batches e ds True ?w1 = Some (bs, w2)"
    using generate_batches_shuffled [OF n, of e ?w1] sh by simp
  have bnd: "\<forall>b\<in>set bs. unat (snd b) + 24 \<le> 2 ^ 64"
  proof
    fix b assume "b \<in> set bs"
    then have "b \<in> set ?B" using s(2) by (metis mset_eq_setD)
    then show "unat (snd b) + 24 \<le> 2 ^ 64"
      using planned_batch_bounds [OF n64 z c, of b] n by simp
  qed
  obtain r3 w3 where ex: "train_batches e ds k (dropout_mult_of k) bs m w2 = Returns r3 w3"
    using train_batches_total [OF assms(1,2) bnd] by blast
  obtain cs m3 where r3: "r3 = (cs, m3)" by (cases r3) auto
  show ?thesis using gb ex r3 by (simp add: train_on_dataset_def Let_def)
qed

section \<open>Properties of evaluation\<close>

lemma score_ok_transfer:
  assumes "score_ok e m msk p1 ev" and "length p2 = length p1"
    and "\<forall>i\<in>set (step_index ev). p2 ! i = p1 ! i"
  shows "score_ok e m msk p2 ev"
  using assms by (cases ev) (auto simp: score_ok_def step_index_def)

lemma list_all_score_ok_transfer:
  assumes "list_all (score_ok e m msk p1) evs" and "length p2 = length p1"
    and "\<forall>i\<in>set (stepped evs). p2 ! i = p1 ! i"
  shows "list_all (score_ok e m msk p2) evs"
  using assms
  by (induction evs) (auto simp: stepped_def intro: score_ok_transfer)

lemma evaluate_examples_spec:
  "evaluate_examples e m ds msk bf bso ei ei_end loss preds w = (loss', preds', w') \<Longrightarrow>
   unat ei_end \<le> length preds \<Longrightarrow>
   \<exists>evs. extends_by w w' evs \<and> quiet w w' \<and> length preds' = length preds \<and>
     stepped evs = [unat ei..<unat ei_end] \<and> list_all (score_ok e m msk preds') evs \<and>
     loss' = loss + trace_loss ds evs \<and> (\<forall>i<unat ei. preds' ! i = preds ! i)"
proof (induction e m ds msk bf bso ei ei_end loss preds w
    rule: evaluate_examples.induct)
  case (1 e m ds msk bf bso ei ei_end loss preds w)
  show ?case
  proof (cases "ei < ei_end")
    case False
    then have "w' = w" "loss' = loss" "preds' = preds"
      using "1.prems" by (simp_all add: evaluate_examples.simps)
    then show ?thesis
      by (intro exI [of _ "[]"])
        (simp add: extends_by_refl quiet_def trace_loss_def stepped_def upt_word_done [OF False])
  next
    case True
    note u = unat_succ_below [OF True]
    let ?fs = "example_features ds bf bso ei"
    let ?t = "predict e m ?fs (compute_norm ?fs) msk 1"
    let ?ev = "EvScore ei ?fs (compute_norm ?fs) msk 1 ?t"
    let ?l = "ln (1 + exp (- (labels (index ds) ! unat ei) * ?t))"
    let ?p1 = "preds[unat ei := 1 / (1 + exp (- ?t))]"
    have ex: "evaluate_example e m ds msk bf bso ei preds w = (?l, ?p1, emit ?ev w)"
      by (simp add: evaluate_example_def Let_def)
    have rec: "evaluate_examples e m ds msk bf bso (ei + 1) ei_end (loss + ?l) ?p1 (emit ?ev w) =
        (loss', preds', w')"
      using "1.prems"(1) True ex by (subst (asm) evaluate_examples.simps) simp
    have len: "unat ei_end \<le> length ?p1" using "1.prems"(2) by simp
    obtain evs where evs: "extends_by (emit ?ev w) w' evs" "quiet (emit ?ev w) w'"
        "length preds' = length ?p1" "stepped evs = [unat (ei + 1)..<unat ei_end]"
        "list_all (score_ok e m msk preds') evs" "loss' = loss + ?l + trace_loss ds evs"
        "\<forall>i<unat (ei + 1). preds' ! i = ?p1 ! i"
      using "1.IH" [OF True ex [symmetric] refl rec len] by auto
    have in_range: "unat ei < length preds" using u(2) "1.prems"(2) by simp
    have slot: "preds' ! unat ei = 1 / (1 + exp (- ?t))"
      using evs(7) u(1) in_range by simp
    have ok: "score_ok e m msk preds' ?ev"
      using slot in_range evs(3) by (simp add: score_ok_def)
    have below: "\<forall>i<unat ei. preds' ! i = preds ! i"
      using evs(7) u(1) by simp
    have "extends_by w w' ([?ev] @ evs)"
      by (rule extends_by_trans [OF extends_by_emit evs(1)])
    moreover have "quiet w w'" using evs(2) by (simp add: quiet_def emit_def)
    moreover have "stepped ([?ev] @ evs) = [unat ei..<unat ei_end]"
      using evs(4) upt_word_step [OF True] by (simp add: stepped_def step_index_def)
    moreover have "loss' = loss + trace_loss ds ([?ev] @ evs)"
      using evs(6) by (simp add: trace_loss_def step_loss_def)
    moreover have "list_all (score_ok e m msk preds') ([?ev] @ evs)" using ok evs(5) by simp
    ultimately show ?thesis using evs(3) below by (intro exI [of _ "[?ev] @ evs"]) simp
  qed
qed


lemma evaluate_batch_spec:
  assumes "evaluate_batch e m ds msk b preds w = ((l, c), preds', w')"
    and "unat (snd b) \<le> length preds"
  shows "\<exists>evs. extends_by w w' evs \<and> quiet w w' \<and> length preds' = length preds \<and>
    stepped evs = examples_of b \<and> list_all (score_ok e m msk preds') evs \<and>
    l = trace_loss ds evs \<and> c = ucast (snd b - fst b) \<and>
    (\<forall>i<unat (fst b). preds' ! i = preds ! i)"
proof -
  let ?bso = "offsets (index ds) ! unat (fst b)"
  let ?beo = "offsets (index ds) ! unat (snd b)"
  let ?rd = "EvReadBatch (data_file_name ds) ?bso ?beo"
  let ?bf = "read_batch e (data_file_name ds) ?bso ?beo"
  have ex: "evaluate_examples e m ds msk ?bf ?bso (fst b) (snd b) 0 preds (emit ?rd w) =
      (l, preds', w')" and c: "c = ucast (snd b - fst b)"
    using assms(1) by (auto simp: evaluate_batch_def Let_def split: prod.splits)
  obtain evs where evs: "extends_by (emit ?rd w) w' evs" "quiet (emit ?rd w) w'"
      "length preds' = length preds" "stepped evs = [unat (fst b)..<unat (snd b)]"
      "list_all (score_ok e m msk preds') evs" "l = 0 + trace_loss ds evs"
      "\<forall>i<unat (fst b). preds' ! i = preds ! i"
    using evaluate_examples_spec [OF ex assms(2)] by auto
  have "extends_by w w' ([?rd] @ evs)"
    by (rule extends_by_trans [OF extends_by_emit evs(1)])
  moreover have "quiet w w'" using evs(2) by (simp add: quiet_def emit_def)
  moreover have "stepped ([?rd] @ evs) = examples_of b"
    using evs(4) by (simp add: stepped_def step_index_def examples_of_def)
  moreover have "l = trace_loss ds ([?rd] @ evs)"
    using evs(6) by (simp add: trace_loss_def step_loss_def)
  moreover have "list_all (score_ok e m msk preds') ([?rd] @ evs)"
    using evs(5) by (simp add: score_ok_def)
  ultimately show ?thesis using evs(3,7) c by (intro exI [of _ "[?rd] @ evs"]) simp
qed

lemma of_u64_sel: "fst (of_u64 b) = unat (fst b)" "snd (of_u64 b) = unat (snd b)"
  by (simp_all add: of_u64_def)

lemma evaluate_batches_spec:
  "evaluate_batches e m ds msk bs preds w = (cs, preds', w') \<Longrightarrow>
   contiguous_from lo hi (map of_u64 bs) \<Longrightarrow> hi \<le> length preds \<Longrightarrow>
   \<exists>evs. extends_by w w' evs \<and> quiet w w' \<and> length preds' = length preds \<and>
     stepped evs = [lo..<hi] \<and> list_all (score_ok e m msk preds') evs \<and>
     sum_list (map fst cs) = trace_loss ds evs \<and>
     map snd cs = map (\<lambda>b. ucast (snd b - fst b)) bs \<and>
     (\<forall>i<lo. preds' ! i = preds ! i)"
proof (induction bs arbitrary: lo preds w cs)
  case Nil
  then show ?case
    by (intro exI [of _ "[]"]) (auto simp: extends_by_refl quiet_def trace_loss_def stepped_def)
next
  case (Cons b bs)
  obtain c1 p1 w1 where b1: "evaluate_batch e m ds msk b preds w = (c1, p1, w1)"
    by (cases "evaluate_batch e m ds msk b preds w") auto
  obtain l1 n1 where c1: "c1 = (l1, n1)" by (cases c1) auto
  obtain cs2 where rec: "evaluate_batches e m ds msk bs p1 w1 = (cs2, preds', w')"
      and cs: "cs = c1 # cs2"
    using Cons.prems(1) b1 by (auto split: prod.splits)
  have lo: "unat (fst b) = lo" and ne: "unat (fst b) < unat (snd b)"
    and ct: "contiguous_from (unat (snd b)) hi (map of_u64 bs)"
    using Cons.prems(2) by (simp_all add: of_u64_sel)
  have mid: "unat (snd b) \<le> hi" using contiguous_cover [OF ct] by simp
  then have len: "unat (snd b) \<le> length preds" using Cons.prems(3) by simp
  obtain a where a: "extends_by w w1 a" "quiet w w1" "length p1 = length preds"
      "stepped a = examples_of b" "list_all (score_ok e m msk p1) a"
      "l1 = trace_loss ds a" "n1 = ucast (snd b - fst b)"
      "\<forall>i<unat (fst b). p1 ! i = preds ! i"
    using evaluate_batch_spec [of e m ds msk b preds w l1 n1 p1 w1] b1 c1 len by auto
  have len2: "hi \<le> length p1" using Cons.prems(3) a(3) by simp
  obtain d where d: "extends_by w1 w' d" "quiet w1 w'" "length preds' = length p1"
      "stepped d = [unat (snd b)..<hi]" "list_all (score_ok e m msk preds') d"
      "sum_list (map fst cs2) = trace_loss ds d"
      "map snd cs2 = map (\<lambda>b. ucast (snd b - fst b)) bs"
      "\<forall>i<unat (snd b). preds' ! i = p1 ! i"
    using Cons.IH [OF rec ct len2] by auto
  have "\<forall>i\<in>set (stepped a). preds' ! i = p1 ! i"
    using d(8) a(4) by (simp add: examples_of_def)
  then have oka: "list_all (score_ok e m msk preds') a"
    using list_all_score_ok_transfer [OF a(5) d(3)] by simp
  have "extends_by w w' (a @ d)" by (rule extends_by_trans [OF a(1) d(1)])
  moreover have "quiet w w'" using a(2) d(2) by (simp add: quiet_def)
  moreover have "stepped (a @ d) = [lo..<hi]"
    using a(4) d(4) lo ne mid upt_split [of lo "unat (snd b)" hi]
    by (simp add: stepped_append examples_of_def)
  moreover have "sum_list (map fst cs) = trace_loss ds (a @ d)"
    using a(6) d(6) cs c1 by (simp add: trace_loss_append)
  moreover have "map snd cs = map (\<lambda>b. ucast (snd b - fst b)) (b # bs)"
    using a(7) d(7) cs c1 by simp
  moreover have "\<forall>i<lo. preds' ! i = preds ! i" using a(8) d(8) lo ne by auto
  moreover have "list_all (score_ok e m msk preds') (a @ d)" using oka d(5) by simp
  ultimately show ?case using a(3) d(3) by (intro exI [of _ "a @ d"]) simp
qed

lemma length_ranges: "0 < cap \<Longrightarrow> length (ranges cap lo hi) \<le> (hi - lo) div cap + 1"
proof (induction cap lo hi rule: ranges.induct)
  case (1 cap lo hi)
  show ?case
  proof (cases "lo < hi")
    case False
    then show ?thesis by (simp add: ranges_empty)
  next
    case True
    have IH: "length (ranges cap (lo + cap) hi) \<le> (hi - (lo + cap)) div cap + 1"
      using 1 True by simp
    show ?thesis
    proof (cases "lo + cap \<le> hi")
      case le: True
      then have "(hi - lo) div cap = (hi - (lo + cap)) div cap + 1"
        using "1.prems" by (metis add.commute add_diff_cancel_left' diff_diff_left div_add_self2
            le_add_diff_inverse less_numeral_extra(3) ordered_cancel_comm_monoid_diff_class.diff_add_assoc2)
      then show ?thesis using IH True "1.prems" by (simp add: ranges_unfold)
    next
      case False
      then show ?thesis using True "1.prems" by (simp add: ranges_unfold ranges_empty)
    qed
  qed
qed


lemma ucast_of_nat_down: "(ucast (word_of_nat k :: u64) :: u32) = word_of_nat k"
  by (simp add: unsigned_of_nat word_of_nat_eq_iff min_def)

lemma planned_sizes_sum32:
  assumes "lo \<le> hi" and "0 < cap"
  shows "sum_list (map (\<lambda>b. (ucast (snd b - fst b) :: u32)) (map to_u64 (ranges cap lo hi))) =
    word_of_nat (hi - lo)"
proof -
  have c: "contiguous_from lo hi (ranges cap lo hi)" by (rule ranges_contiguous [OF assms])
  have "(ucast (snd (to_u64 r) - fst (to_u64 r)) :: u32) = word_of_nat (snd r - fst r)"
    if "r \<in> set (ranges cap lo hi)" for r
  proof -
    have "snd (to_u64 r) - fst (to_u64 r) = (word_of_nat (snd r - fst r) :: u64)"
      using contiguous_nonempty [OF c that] by (simp add: to_u64_def of_nat_diff less_imp_le)
    then show ?thesis by (simp only: ucast_of_nat_down)
  qed
  then have m: "map (\<lambda>b. (ucast (snd b - fst b) :: u32)) (map to_u64 (ranges cap lo hi)) =
      map (\<lambda>r. (word_of_nat (snd r - fst r) :: u32)) (ranges cap lo hi)"
    by simp
  have s: "sum_list (map (\<lambda>r. (word_of_nat (f r) :: u32)) xs) =
      word_of_nat (sum_list (map f xs))" for f :: "nat \<times> nat \<Rightarrow> nat" and xs
    by (induction xs) simp_all
  show ?thesis unfolding m s contiguous_sizes [OF c] ..
qed

lemma evaluate_on_dataset_spec:
  assumes n: "unat (n_examples (index ds)) + 20000 \<le> 2 ^ 64"
    and nb: "unat (n_examples (index ds)) div 20000 + 1 < 2 ^ 32"
    and t: "0 < omp_threads w"
  shows "\<exists>loss preds w' evs.
    evaluate_on_dataset e m ds w = Returns (loss, preds) w' \<and>
    extends_by w w'
      (EvEvaluate # evs @ [EvReport (unat (n_examples (index ds)) mod 2 ^ 32)
                             (loss / real (unat (n_examples (index ds)) mod 2 ^ 32))]) \<and>
    quiet w w' \<and> length preds = unat (n_examples (index ds)) \<and>
    stepped evs = [0..<unat (n_examples (index ds))] \<and>
    list_all (score_ok e m (fill_mask_ones (stack_garbage e) (int dropout_mask_max_size)) preds)
      evs \<and>
    loss = trace_loss ds evs"
proof -
  let ?n = "unat (n_examples (index ds))"
  let ?B = "map to_u64 (ranges 20000 0 ?n)"
  let ?w1 = "emit EvEvaluate w"
  let ?ones = "fill_mask_ones (stack_garbage e) (int dropout_mask_max_size)"
  let ?p0 = "replicate ?n (0 :: real)"
  have n64: "?n < 2 ^ 64" using n by simp
  have z: "0 \<le> ?n" and c: "(0 :: nat) < 20000" by simp_all
  have gb: "generate_batches e ds False ?w1 = Some (?B, ?w1)"
    by (rule generate_batches_plain [OF n])
  have "length ?B \<le> ?n div 20000 + 1" using length_ranges [OF c, of 0 ?n] by simp
  then have small: "\<not> 2 ^ 32 \<le> length ?B" using nb by linarith
  obtain cs preds w3 where eb: "evaluate_batches e m ds ?ones ?B ?p0 ?w1 = (cs, preds, w3)"
    by (cases "evaluate_batches e m ds ?ones ?B ?p0 ?w1") auto
  have ct: "contiguous_from 0 ?n (map of_u64 ?B)"
    by (rule ranges_u64_properties(1) [OF n64 z c])
  obtain evs where evs: "extends_by ?w1 w3 evs" "quiet ?w1 w3" "length preds = length ?p0"
      "stepped evs = [0..<?n]" "list_all (score_ok e m ?ones preds) evs"
      "sum_list (map fst cs) = trace_loss ds evs"
      "map snd cs = map (\<lambda>b. ucast (snd b - fst b)) ?B"
    using evaluate_batches_spec [OF eb ct] by auto
  let ?loss = "omp_reduction (omp_threads w3) (omp_schedule e) (map fst cs)"
  let ?cnt = "omp_reduction (omp_threads w3) (omp_schedule e) (map snd cs)"
  have th: "0 < omp_threads w3" using t evs(1) by (simp add: extends_by_def emit_def)
  have "?loss = sum_list (map fst cs)" by (rule omp_reduction_sum [OF th])
  then have l: "?loss = trace_loss ds evs" using evs(6) by simp
  have "?cnt = sum_list (map snd cs)" by (rule omp_reduction_sum [OF th])
  also have "\<dots> = sum_list (map (\<lambda>b. (ucast (snd b - fst b) :: u32)) ?B)"
    by (simp only: evs(7))
  also have "\<dots> = word_of_nat ?n" using planned_sizes_sum32 [OF z c] by simp
  finally have cnt: "unat ?cnt = ?n mod 2 ^ 32"
    by (simp only: unat_of_nat) simp
  let ?w' = "emit (EvReport (?n mod 2 ^ 32) (?loss / real (?n mod 2 ^ 32))) w3"
  have cnt': "(unsigned ?cnt :: real) = real (?n mod 2 ^ 32)"
    using cnt by (metis of_nat_unat)
  have res: "evaluate_on_dataset e m ds w = Returns (?loss, preds) ?w'"
    using gb small eb cnt cnt' by (simp add: evaluate_on_dataset_def Let_def)
  have x: "extends_by w ?w'
      (([EvEvaluate] @ evs) @ [EvReport (?n mod 2 ^ 32) (?loss / real (?n mod 2 ^ 32))])"
    by (rule extends_by_trans [OF extends_by_trans [OF extends_by_emit evs(1)] extends_by_emit])
  have q: "quiet w ?w'" using evs(2) by (simp add: quiet_def emit_def)
  show ?thesis
    using res x q evs(3,4,5) l by (intro exI [of _ ?loss] exI [of _ preds] exI [of _ ?w']
        exI [of _ evs]) simp
qed

section \<open>Loss, gradient and counts\<close>

lemma shl_one_pow:
  assumes "k \<le> 30"
  shows "shl_one k = 2 ^ k"
proof -
  have "k < 31" using assms by simp
  then have lt: "(2 :: int) ^ k < 2 ^ 31" by (rule power_strict_increasing) simp
  have nz: "(2 :: 32 word) ^ k \<noteq> 0" unfolding exp_eq_zero_iff using assms by simp
  then have "(0 :: 32 word) < 2 ^ k" unfolding word_neq_0_conv .
  then have u: "uint (2 ^ k :: 32 word) = 2 ^ k" by (rule uint_2p)
  have "sint (2 ^ k :: 32 word) = signed_take_bit (LENGTH(32) - Suc 0) (uint (2 ^ k :: 32 word))"
    by (rule sint_uint)
  also have "\<dots> = signed_take_bit 31 ((2 :: int) ^ k)" by (simp only: u) simp
  also have "\<dots> = 2 ^ k"
    by (rule signed_take_bit_int_eq_self) (use lt in \<open>simp_all add: order_trans [of _ 0]\<close>)
  finally show ?thesis by (simp only: shl_one_def push_bit_of_1)
qed


lemma zero_score_step:
  assumes "step_ok e ds dm ev" and "\<forall>m fs nrm msk dm. predict e m fs nrm msk dm = 0"
  shows "step_loss ds ev = real (length (step_index ev)) * ln 2"
  using assms by (cases ev) (auto simp: step_ok_def step_loss_def step_index_def)

lemma zero_score_loss:
  assumes "list_all (step_ok e ds dm) evs" and "\<forall>m fs nrm msk dm. predict e m fs nrm msk dm = 0"
  shows "trace_loss ds evs = real (length (stepped evs)) * ln 2"
  using assms(1)
proof (induction evs)
  case Nil
  then show ?case by (simp add: trace_loss_def stepped_def)
next
  case (Cons ev evs)
  have "step_ok e ds dm ev" using Cons.prems by simp
  then have "step_loss ds ev = real (length (step_index ev)) * ln 2"
    by (rule zero_score_step [OF _ assms(2)])
  moreover have "trace_loss ds evs = real (length (stepped evs)) * ln 2"
    using Cons by simp
  ultimately show ?case by (simp add: trace_loss_def stepped_def algebra_simps)
qed

lemma mean_of_equal: "0 < n \<Longrightarrow> real n * c / real n = c"
  by simp

lemma dropout_mult_of_value:
  assumes "k \<le> 30"
  shows "dropout_mult_of k = 2 ^ k / (2 ^ k - 1)"
  by (simp add: dropout_mult_of_def shl_one_pow [OF assms])

text \<open>
  C5. When the entropy source does not fail (and with the planner's bound on
  \<open>n_examples\<close>, at least one worker, and mask sizes an \<^verbatim>\<open>int\<close> can hold),
  \<open>train_on_dataset\<close> returns; between its first line and its summary line the trace
  holds the steps of the examples \<open>0 ..< n_examples\<close>, each exactly once; the loss it
  returns is the sum over these steps of \<open>ln (1 + exp (-y t))\<close>, for the label \<open>y\<close> of the
  example and the score \<open>t\<close> that \<open>predict\<close> returned; and the mean it prints is this loss
  divided by the count it prints, \<open>n_examples\<close>. For a model that scores every example
  \<open>0\<close>, every step contributes \<open>ln 2\<close> and the mean over a non-empty dataset is \<open>ln 2\<close>.
\<close>

theorem train_loss_is_logistic:
  assumes "unat (n_examples (index ds)) + 20000 \<le> 2 ^ 64" and "0 < omp_threads w"
    and "entropy_ok e" and "mask_sizes_ok e"
  shows "\<exists>loss m' w' evs.
    train_on_dataset e m ds k w = Returns (loss, m') w' \<and>
    trace w' = trace w @ EvTrain k # evs @
      [EvReport (unat (n_examples (index ds))) (loss / real (unat (n_examples (index ds))))] \<and>
    list_all (step_ok e ds (dropout_mult_of k)) evs \<and>
    mset (stepped evs) = mset [0..<unat (n_examples (index ds))] \<and>
    loss = trace_loss ds evs \<and>
    ((\<forall>m fs nrm msk dm. predict e m fs nrm msk dm = 0) \<longrightarrow>
       (\<forall>ev\<in>set evs. step_index ev \<noteq> [] \<longrightarrow> step_loss ds ev = ln 2) \<and>
       loss = real (unat (n_examples (index ds))) * ln 2 \<and>
       (0 < unat (n_examples (index ds)) \<longrightarrow>
          loss / real (unat (n_examples (index ds))) = ln 2))"
proof -
  let ?n = "unat (n_examples (index ds))"
  obtain loss m' w' where r: "train_on_dataset e m ds k w = Returns (loss, m') w'"
    using train_on_dataset_total [OF assms(3,4,1)] by blast
  obtain evs where evs:
    "extends_by w w' (EvTrain k # evs @ [EvReport ?n (loss / real ?n)])"
    "list_all (step_ok e ds (dropout_mult_of k)) evs"
    "loss = trace_loss ds evs" "mset (stepped evs) = mset [0..<?n]"
    using train_on_dataset_Returns [OF r assms(1,2)] by blast
  have tr: "trace w' = trace w @ EvTrain k # evs @ [EvReport ?n (loss / real ?n)]"
    using evs(1) by (simp add: extends_by_def)
  have len: "length (stepped evs) = ?n" using mset_eq_length [OF evs(4)] by simp
  have z: "(\<forall>ev\<in>set evs. step_index ev \<noteq> [] \<longrightarrow> step_loss ds ev = ln 2) \<and>
      loss = real ?n * ln 2 \<and> (0 < ?n \<longrightarrow> loss / real ?n = ln 2)"
    if p: "\<forall>m fs nrm msk dm. predict e m fs nrm msk dm = 0"
  proof (intro conjI ballI impI)
    fix ev assume "ev \<in> set evs" and ne: "step_index ev \<noteq> []"
    then have "step_ok e ds (dropout_mult_of k) ev" using evs(2) by (simp add: list_all_iff)
    then show "step_loss ds ev = ln 2"
      using p ne by (cases ev) (auto simp: step_ok_def step_loss_def step_index_def)
  next
    show l: "loss = real ?n * ln 2" using zero_score_loss [OF evs(2) p] evs(3) len by simp
    assume pos: "0 < ?n"
    show "loss / real ?n = ln 2" by (simp only: l mean_of_equal [OF pos])
  qed
  have zz: "(\<forall>m fs nrm msk dm. predict e m fs nrm msk dm = 0) \<longrightarrow>
      (\<forall>ev\<in>set evs. step_index ev \<noteq> [] \<longrightarrow> step_loss ds ev = ln 2) \<and>
      loss = real ?n * ln 2 \<and> (0 < ?n \<longrightarrow> loss / real ?n = ln 2)"
    using z by (rule impI)
  show ?thesis
    by (intro exI [of _ loss] exI [of _ m'] exI [of _ w'] exI [of _ evs] conjI
        r tr evs(2) evs(4) evs(3) zz)
qed

theorem train_loss_is_logistic_witness:
  "unat (n_examples (index (demo_dataset 3))) + 20000 \<le> 2 ^ 64 \<and>
   0 < omp_threads demo_sys \<and> entropy_ok demo_env \<and> mask_sizes_ok demo_env \<and>
   labels (index (demo_dataset 3)) = [1, - 1, 1] \<and>
   (\<exists>m' w' evs.
      train_on_dataset demo_env 0 (demo_dataset 3) 1 demo_sys = Returns (3 * ln 2, m') w' \<and>
      trace w' = EvTrain 1 # evs @ [EvReport 3 (ln 2)])"
proof -
  have n: "unat (n_examples (index (demo_dataset 3))) = 3" by (simp add: demo_dataset_def)
  have h1: "unat (n_examples (index (demo_dataset 3))) + 20000 \<le> 2 ^ 64" by (simp add: n)
  have h2: "0 < omp_threads demo_sys" by (simp add: demo_sys_def)
  have h3: "entropy_ok demo_env" by (simp add: entropy_ok_def demo_env_def)
  have h4: "mask_sizes_ok demo_env" by (simp add: mask_sizes_ok_def demo_env_def)
  have p: "\<forall>m fs nrm msk dm. predict demo_env m fs nrm msk dm = 0" by (simp add: demo_env_def)
  have l: "labels (index (demo_dataset 3)) = [1, - 1, 1]"
    by (simp add: demo_dataset_def demo_index_def)
  obtain loss m' w' evs where
    r: "train_on_dataset demo_env 0 (demo_dataset 3) 1 demo_sys = Returns (loss, m') w'" and
    t: "trace w' = trace demo_sys @ EvTrain 1 # evs @ [EvReport 3 (loss / real 3)]" and
    z: "loss = real 3 * ln 2" "loss / real 3 = ln 2"
    using train_loss_is_logistic [OF h1 h2 h3 h4, of 0 1] p unfolding n by auto
  have "trace w' = EvTrain 1 # evs @ [EvReport 3 (ln 2)]"
    using t z(2) by (simp add: demo_sys_def)
  moreover have "train_on_dataset demo_env 0 (demo_dataset 3) 1 demo_sys =
      Returns (3 * ln 2, m') w'"
    using r z(1) by simp
  ultimately show ?thesis using h1 h2 h3 h4 l by blast
qed

text \<open>
  C9. With at least one worker and whatever worker runs which batch, the count that
  \<open>train_on_dataset\<close> prints is \<open>n_examples\<close>, where training returns; the count that
  \<open>evaluate_on_dataset\<close> prints is \<open>n_examples\<close> modulo \<open>2^32\<close>, since its counter is a
  \<^verbatim>\<open>uint32_t\<close>. (The bounds on \<open>n_examples\<close> are the ones under which the planner and the
  32-bit batch counter of the evaluation loop return.)
\<close>

theorem reported_counts:
  assumes "unat (n_examples (index ds)) + 20000 \<le> 2 ^ 64"
    and "unat (n_examples (index ds)) div 20000 + 1 < 2 ^ 32"
    and "0 < omp_threads w" and "entropy_ok e" and "mask_sizes_ok e"
  shows "(\<exists>loss m' w'.
      train_on_dataset e m ds k w = Returns (loss, m') w' \<and>
      last (trace w') = EvReport (unat (n_examples (index ds)))
                          (loss / real (unat (n_examples (index ds))))) \<and>
    (\<exists>loss preds w'.
      evaluate_on_dataset e m ds w = Returns (loss, preds) w' \<and>
      last (trace w') = EvReport (unat (n_examples (index ds)) mod 2 ^ 32)
                          (loss / real (unat (n_examples (index ds)) mod 2 ^ 32)))"
proof
  let ?n = "unat (n_examples (index ds))"
  obtain loss m' w' where r: "train_on_dataset e m ds k w = Returns (loss, m') w'"
    using train_on_dataset_total [OF assms(4,5,1)] by blast
  obtain evs where "extends_by w w' (EvTrain k # evs @ [EvReport ?n (loss / real ?n)])"
    using train_on_dataset_Returns [OF r assms(1,3)] by blast
  then have "last (trace w') = EvReport ?n (loss / real ?n)" by (simp add: extends_by_def)
  then show "\<exists>loss m' w'. train_on_dataset e m ds k w = Returns (loss, m') w' \<and>
      last (trace w') = EvReport ?n (loss / real ?n)"
    using r by blast
  obtain loss2 preds w2 evs2 where
    r2: "evaluate_on_dataset e m ds w = Returns (loss2, preds) w2" and
    x2: "extends_by w w2
      (EvEvaluate # evs2 @ [EvReport (?n mod 2 ^ 32) (loss2 / real (?n mod 2 ^ 32))])"
    using evaluate_on_dataset_spec [OF assms(1,2,3), of e m] by blast
  have "last (trace w2) = EvReport (?n mod 2 ^ 32) (loss2 / real (?n mod 2 ^ 32))"
    using x2 by (simp add: extends_by_def)
  then show "\<exists>loss preds w'. evaluate_on_dataset e m ds w = Returns (loss, preds) w' \<and>
      last (trace w') = EvReport (?n mod 2 ^ 32) (loss / real (?n mod 2 ^ 32))"
    using r2 by blast
qed

theorem reported_counts_witness:
  "n_examples (index big_dataset) = 4294967296 \<and>
   length (labels (index big_dataset)) = 4294967296 \<and>
   length (offsets (index big_dataset)) = 4294967297 \<and>
   0 < omp_threads demo_sys \<and> entropy_ok demo_env \<and> mask_sizes_ok demo_env \<and>
   (\<exists>loss m' w'.
      train_on_dataset demo_env 0 big_dataset 1 demo_sys = Returns (loss, m') w' \<and>
      last (trace w') = EvReport 4294967296 (loss / 4294967296)) \<and>
   (\<exists>loss preds w'.
      evaluate_on_dataset demo_env 0 big_dataset demo_sys = Returns (loss, preds) w' \<and>
      last (trace w') = EvReport 0 (loss / 0))"
proof -
  have n: "unat (n_examples (index big_dataset)) = 4294967296" by (simp add: big_dataset_def)
  have h1: "unat (n_examples (index big_dataset)) + 20000 \<le> 2 ^ 64" by (simp add: n)
  have h2: "unat (n_examples (index big_dataset)) div 20000 + 1 < 2 ^ 32" by (simp add: n)
  have h3: "0 < omp_threads demo_sys" by (simp add: demo_sys_def)
  have h4: "entropy_ok demo_env" by (simp add: entropy_ok_def demo_env_def)
  have h5: "mask_sizes_ok demo_env" by (simp add: mask_sizes_ok_def demo_env_def)
  have d: "n_examples (index big_dataset) = 4294967296"
    "length (labels (index big_dataset)) = 4294967296"
    "length (offsets (index big_dataset)) = 4294967297"
    by (simp_all add: big_dataset_def)
  show ?thesis
    using reported_counts [OF h1 h2 h3 h4 h5, of 0 1] d h3 h4 h5 unfolding n by simp
qed

section \<open>Evaluation mode and the mask capacity\<close>

text \<open>
  C7. \<open>evaluate_on_dataset\<close> returns (under the bounds on \<open>n_examples\<close> under which the
  planner and the 32-bit batch counter return). Between its first line and its summary
  line the trace holds only batch reads and scores, no training step: \<open>update\<close> is never
  called, and every score is \<open>predict\<close> on the model that was passed in. The scores are
  those of the examples \<open>0 ..< n_examples\<close> in ascending order, so the batches are not
  shuffled and not cut into mini-batches, and the engine and the entropy source are at
  the positions they had before. Every score is computed with the one mask memory that
  \<open>fill_mask_ones\<close> made of the array, all of whose 4000 words have every bit set, and
  with the multiplier \<open>1\<close>; and the probability \<open>1 / (1 + exp (-t))\<close> stands in the slot
  of the example in the vector of predictions. For every size up to the capacity,
  \<open>fill_mask_ones\<close> sets every bit of the first \<open>size\<close> words.
\<close>

theorem evaluation_is_read_only:
  assumes "unat (n_examples (index ds)) + 20000 \<le> 2 ^ 64"
    and "unat (n_examples (index ds)) div 20000 + 1 < 2 ^ 32"
    and "0 < omp_threads w"
  shows "\<exists>loss preds w' evs.
    evaluate_on_dataset e m ds w = Returns (loss, preds) w' \<and>
    trace w' = trace w @ EvEvaluate # evs @
      [EvReport (unat (n_examples (index ds)) mod 2 ^ 32)
         (loss / real (unat (n_examples (index ds)) mod 2 ^ 32))] \<and>
    rnd_seed w' = rnd_seed w \<and> rnd_pos w' = rnd_pos w \<and> hw_pos w' = hw_pos w \<and>
    length preds = unat (n_examples (index ds)) \<and>
    stepped evs = [0..<unat (n_examples (index ds))] \<and>
    (\<forall>ev\<in>set evs.
       case ev of
         EvScore ei fs nrm msk dm t \<Rightarrow>
           msk = fill_mask_ones (stack_garbage e) (int dropout_mask_max_size) \<and>
           (\<forall>a<dropout_mask_max_size. msk a = - 1) \<and> dm = 1 \<and>
           nrm = compute_norm fs \<and> t = predict e m fs nrm msk 1 \<and>
           preds ! unat ei = 1 / (1 + exp (- t))
       | EvReadBatch f a b \<Rightarrow> True
       | _ \<Rightarrow> False) \<and>
    (\<forall>sz msk a. 0 \<le> sz \<and> sz \<le> int dropout_mask_max_size \<and> a < nat sz \<longrightarrow>
       fill_mask_ones msk sz a = - 1 \<and> (\<forall>i<64. bit (fill_mask_ones msk sz a) i))"
proof -
  let ?n = "unat (n_examples (index ds))"
  let ?ones = "fill_mask_ones (stack_garbage e) (int dropout_mask_max_size)"
  obtain loss preds w' evs where
    r: "evaluate_on_dataset e m ds w = Returns (loss, preds) w'" and
    x: "extends_by w w'
      (EvEvaluate # evs @ [EvReport (?n mod 2 ^ 32) (loss / real (?n mod 2 ^ 32))])" and
    q: "quiet w w'" and len: "length preds = ?n" and st: "stepped evs = [0..<?n]" and
    ok: "list_all (score_ok e m ?ones preds) evs"
    using evaluate_on_dataset_spec [OF assms, of e m] by blast
  have ones: "fill_mask_ones msk sz a = - 1 \<and> (\<forall>i<64. bit (fill_mask_ones msk sz a) i)"
    if "0 \<le> sz \<and> sz \<le> int dropout_mask_max_size \<and> a < nat sz" for sz msk a
  proof -
    have "sz < 2 ^ 31" using that by (simp add: dropout_mask_max_size_def)
    then have "fill_mask_ones msk sz a = - 1" using memset_ones_words [of sz msk a] that by simp
    then show ?thesis by simp
  qed
  have all: "\<forall>a<dropout_mask_max_size. ?ones a = - 1" using ones by simp
  have evs: "\<forall>ev\<in>set evs.
       case ev of
         EvScore ei fs nrm msk dm t \<Rightarrow>
           msk = ?ones \<and> (\<forall>a<dropout_mask_max_size. msk a = - 1) \<and> dm = 1 \<and>
           nrm = compute_norm fs \<and> t = predict e m fs nrm msk 1 \<and>
           preds ! unat ei = 1 / (1 + exp (- t))
       | EvReadBatch f a b \<Rightarrow> True
       | _ \<Rightarrow> False"
  proof
    fix ev assume "ev \<in> set evs"
    then have "score_ok e m ?ones preds ev" using ok by (simp add: list_all_iff)
    then show "case ev of
         EvScore ei fs nrm msk dm t \<Rightarrow>
           msk = ?ones \<and> (\<forall>a<dropout_mask_max_size. msk a = - 1) \<and> dm = 1 \<and>
           nrm = compute_norm fs \<and> t = predict e m fs nrm msk 1 \<and>
           preds ! unat ei = 1 / (1 + exp (- t))
       | EvReadBatch f a b \<Rightarrow> True
       | _ \<Rightarrow> False"
      using all by (cases ev) (simp_all add: score_ok_def)
  qed
  have tr: "trace w' = trace w @ EvEvaluate # evs @
      [EvReport (?n mod 2 ^ 32) (loss / real (?n mod 2 ^ 32))]"
    and sd: "rnd_seed w' = rnd_seed w"
    using x by (simp_all add: extends_by_def)
  have rp: "rnd_pos w' = rnd_pos w" and hp: "hw_pos w' = hw_pos w"
    using q by (simp_all add: quiet_def)
  have o: "\<forall>sz msk a. 0 \<le> sz \<and> sz \<le> int dropout_mask_max_size \<and> a < nat sz \<longrightarrow>
       fill_mask_ones msk sz a = - 1 \<and> (\<forall>i<64. bit (fill_mask_ones msk sz a) i)"
    using ones by blast
  show ?thesis
    by (intro exI [of _ loss] exI [of _ preds] exI [of _ w'] exI [of _ evs] conjI
        r tr sd rp hp len st evs o)
qed

theorem evaluation_is_read_only_witness:
  "unat (n_examples (index (demo_dataset 3))) + 20000 \<le> 2 ^ 64 \<and>
   unat (n_examples (index (demo_dataset 3))) div 20000 + 1 < 2 ^ 32 \<and>
   0 < omp_threads demo_sys \<and>
   (\<exists>loss preds w' evs.
      evaluate_on_dataset demo_env 7 (demo_dataset 3) demo_sys = Returns (loss, preds) w' \<and>
      trace w' = EvEvaluate # evs @ [EvReport 3 (loss / 3)] \<and>
      rnd_pos w' = 0 \<and> hw_pos w' = 0 \<and> length preds = 3 \<and> stepped evs = [0, 1, 2])"
proof -
  have n: "unat (n_examples (index (demo_dataset 3))) = 3" by (simp add: demo_dataset_def)
  have h1: "unat (n_examples (index (demo_dataset 3))) + 20000 \<le> 2 ^ 64" by (simp add: n)
  have h2: "unat (n_examples (index (demo_dataset 3))) div 20000 + 1 < 2 ^ 32" by (simp add: n)
  have h3: "0 < omp_threads demo_sys" by (simp add: demo_sys_def)
  have u: "[0..<3] = [0, 1, 2]" by (simp add: upt_rec)
  obtain loss preds w' evs where
    "evaluate_on_dataset demo_env 7 (demo_dataset 3) demo_sys = Returns (loss, preds) w'"
    "trace w' = trace demo_sys @ EvEvaluate # evs @ [EvReport (3 mod 2 ^ 32) (loss / real (3 mod 2 ^ 32))]"
    "rnd_pos w' = rnd_pos demo_sys" "hw_pos w' = hw_pos demo_sys" "length preds = 3"
    "stepped evs = [0..<3]"
    using evaluation_is_read_only [OF h1 h2 h3, of demo_env 7] unfolding n by blast
  then have "evaluate_on_dataset demo_env 7 (demo_dataset 3) demo_sys = Returns (loss, preds) w' \<and>
      trace w' = EvEvaluate # evs @ [EvReport 3 (loss / 3)] \<and>
      rnd_pos w' = 0 \<and> hw_pos w' = 0 \<and> length preds = 3 \<and> stepped evs = [0, 1, 2]"
    by (simp add: demo_sys_def u)
  then show ?thesis using h1 h2 h3 by blast
qed

text \<open>
  C1 (a defect of the code). With a model that asks for a mask of 256001 bits, which is
  \<open>(256001 + 63) div 64 = 4001\<close> words and one more than the array
  \<^verbatim>\<open>dropout_mask[dropout_mask_max_size]\<close> holds, the step of an example does not abort: it
  returns, having made 4001 draws and having written a draw to the word at index 4000,
  the first one behind the array; and the training pass over the three examples returns
  after \<open>3 * 4001\<close> draws.
\<close>

theorem capacity_is_not_checked:
  "dropout_mask_max_size = 4000 \<and>
   (get_dropout_mask_size wide_mask_env 0 [] + 63) div 64 = 4001 \<and>
   stack_garbage wide_mask_env 4000 = 0 \<and>
   (\<exists>l m' msk' w'.
      train_example wide_mask_env (demo_dataset 3) 1 2
        (read_batch wide_mask_env ''demo.data'' 0 5) 0 0 0 (stack_garbage wide_mask_env)
        demo_sys = Returns (l, m', msk') w' \<and>
      hw_pos w' = 4001 \<and> msk' 4000 = 5) \<and>
   (\<exists>loss m' w'.
      train_on_dataset wide_mask_env 0 (demo_dataset 3) 1 demo_sys = Returns (loss, m') w' \<and>
      hw_pos w' = 12003)"
proof -
  have a: "dropout_mask_max_size = 4000" by (simp add: dropout_mask_max_size_def)
  have b: "(get_dropout_mask_size wide_mask_env 0 [] + 63) div 64 = 4001"
    by (simp add: wide_mask_env_def)
  have c: "stack_garbage wide_mask_env 4000 = 0" by (simp add: wide_mask_env_def demo_env_def)
  have d: "\<exists>l m' msk' w'.
      train_example wide_mask_env (demo_dataset 3) 1 2
        (read_batch wide_mask_env ''demo.data'' 0 5) 0 0 0 (stack_garbage wide_mask_env)
        demo_sys = Returns (l, m', msk') w' \<and>
      hw_pos w' = 4001 \<and> msk' 4000 = 5"
    by (simp add: train_example_def wide_mask_env_def demo_env_def demo_dataset_def
        demo_index_def demo_sys_def fill_mask_rand_ok example_features_def slice_def
        compute_norm_def emit_def Let_def)
  have e: "\<exists>loss m' w'.
      train_on_dataset wide_mask_env 0 (demo_dataset 3) 1 demo_sys = Returns (loss, m') w' \<and>
      hw_pos w' = 12003"
    by (simp add: train_on_dataset_def generate_batches_def batches_loop.simps batch_size_def
        min_T_def std_shuffle_def generate_mini_batches_def mini_batches_loop.simps
        mini_batch_size_def train_batch_def train_examples.simps train_example_def
        wide_mask_env_def demo_env_def demo_dataset_def demo_index_def demo_sys_def
        fill_mask_rand_ok example_features_def slice_def compute_norm_def emit_def Let_def
        omp_reduction_def dropout_mult_of_def shl_one_def)
  show ?thesis using a b c d e by blast
qed

section \<open>The epoch orchestrator\<close>

lemma train_marks_append: "train_marks (a @ b) = train_marks a @ train_marks b"
  by (simp add: train_marks_def)

lemma train_marks_Cons: "train_marks (ev # evs) = train_mark ev @ train_marks evs"
  by (simp add: train_marks_def)


lemma no_marks:
  assumes "\<forall>ev\<in>set evs. train_mark ev = []"
  shows "train_marks evs = []"
  using assms by (simp add: train_marks_def)

lemma scoring_event_training_event:
  "scoring_event ev \<Longrightarrow> training_event ev \<and> train_mark ev = []"
  by (cases ev) (simp_all add: scoring_event_def training_event_def train_mark_def)

lemma predicting_event_run_event:
  "predicting_event ev \<Longrightarrow> run_event ev \<and> train_mark ev = []"
  by (cases ev) (simp_all add: predicting_event_def run_event_def train_mark_def)

lemma list_all_scoring_training:
  assumes "list_all scoring_event evs"
  shows "list_all training_event evs \<and> train_marks evs = []"
proof -
  have "\<forall>ev\<in>set evs. training_event ev \<and> train_mark ev = []"
    using assms scoring_event_training_event by (auto simp: list_all_iff)
  then show ?thesis using no_marks [of evs] by (simp add: list_all_iff)
qed

lemma list_all_predicting_run:
  assumes "list_all predicting_event evs"
  shows "list_all run_event evs \<and> train_marks evs = []"
proof -
  have "\<forall>ev\<in>set evs. run_event ev \<and> train_mark ev = []"
    using assms predicting_event_run_event by (auto simp: list_all_iff)
  then show ?thesis using no_marks [of evs] by (simp add: list_all_iff)
qed

lemma step_ok_training_event:
  assumes "step_ok e ds (dropout_mult_of 1) ev"
  shows "training_event ev \<and> train_mark ev = []"
proof -
  have "dropout_mult_of 1 = 2" using dropout_mult_of_value [of 1] by simp
  then show ?thesis
    using assms by (cases ev) (simp_all add: step_ok_def training_event_def train_mark_def)
qed

lemma list_all_steps_training:
  assumes "list_all (step_ok e ds (dropout_mult_of 1)) evs"
  shows "list_all training_event evs \<and> train_marks evs = []"
proof -
  have "\<forall>ev\<in>set evs. training_event ev \<and> train_mark ev = []"
    using assms step_ok_training_event by (auto simp: list_all_iff)
  then show ?thesis using no_marks [of evs] by (simp add: list_all_iff)
qed

lemma train_pass_frame:
  assumes "train_on_dataset e m ds 1 w = Returns r w' \<or> train_on_dataset e m ds 1 w = Throws err w'"
  shows "\<exists>evs. extends_by w w' evs \<and> list_all training_event evs \<and> train_marks evs = [1]"
proof -
  obtain evs tl where x: "extends_by w w' (EvTrain 1 # evs @ tl)"
      and ok: "list_all (step_ok e ds (dropout_mult_of 1)) evs"
      and tl: "tl = [] \<or> (\<exists>c x. tl = [EvReport c x])"
    using assms
  proof
    assume "train_on_dataset e m ds 1 w = Returns r w'"
    then have "train_on_dataset e m ds 1 w = Returns (fst r, snd r) w'" by simp
    from train_on_dataset_frame_Returns [OF this] show ?thesis using that by blast
  next
    assume "train_on_dataset e m ds 1 w = Throws err w'"
    from train_on_dataset_frame_Throws [OF this] show ?thesis using that [of _ "[]"] by auto
  qed
  note s = list_all_steps_training [OF ok]
  have "list_all training_event (EvTrain 1 # evs @ tl)"
    using s tl by (auto simp: training_event_def)
  moreover have "train_marks (EvTrain 1 # evs @ tl) = [1]"
    using s tl by (auto simp: train_marks_def train_mark_def)
  ultimately show ?thesis using x by blast
qed

lemma evaluate_examples_frame:
  "evaluate_examples e m ds msk bf bso ei ei_end loss preds w = (loss', preds', w') \<Longrightarrow>
   \<exists>evs. extends_by w w' evs \<and> list_all scoring_event evs"
proof (induction e m ds msk bf bso ei ei_end loss preds w
    rule: evaluate_examples.induct)
  case (1 e m ds msk bf bso ei ei_end loss preds w)
  show ?case
  proof (cases "ei < ei_end")
    case False
    then have "w' = w" using "1.prems" by (simp add: evaluate_examples.simps)
    then show ?thesis by (intro exI [of _ "[]"]) (simp add: extends_by_refl)
  next
    case True
    obtain l p1 w1 where ex: "evaluate_example e m ds msk bf bso ei preds w = (l, p1, w1)"
      by (cases "evaluate_example e m ds msk bf bso ei preds w") auto
    have rec: "evaluate_examples e m ds msk bf bso (ei + 1) ei_end (loss + l) p1 w1 =
        (loss', preds', w')"
      using "1.prems" True ex by (subst (asm) evaluate_examples.simps) simp
    obtain ev where ev: "w1 = emit ev w" "scoring_event ev"
      using ex by (auto simp: evaluate_example_def Let_def scoring_event_def)
    obtain evs where evs: "extends_by w1 w' evs" "list_all scoring_event evs"
      using "1.IH" [OF True ex [symmetric] refl rec] by auto
    have "extends_by w w' ([ev] @ evs)"
      using extends_by_trans [OF extends_by_emit evs(1) [unfolded ev(1)]] .
    then show ?thesis using ev(2) evs(2) by (intro exI [of _ "[ev] @ evs"]) simp
  qed
qed

lemma evaluate_batches_frame:
  "evaluate_batches e m ds msk bs preds w = (cs, preds', w') \<Longrightarrow>
   \<exists>evs. extends_by w w' evs \<and> list_all scoring_event evs"
proof (induction bs arbitrary: preds w cs)
  case Nil
  then show ?case by (intro exI [of _ "[]"]) (simp add: extends_by_refl)
next
  case (Cons b bs)
  let ?bso = "offsets (index ds) ! unat (fst b)"
  let ?beo = "offsets (index ds) ! unat (snd b)"
  let ?rd = "EvReadBatch (data_file_name ds) ?bso ?beo"
  let ?bf = "read_batch e (data_file_name ds) ?bso ?beo"
  obtain l p1 w1 where ex: "evaluate_examples e m ds msk ?bf ?bso (fst b) (snd b) 0 preds
      (emit ?rd w) = (l, p1, w1)"
    by (cases "evaluate_examples e m ds msk ?bf ?bso (fst b) (snd b) 0 preds (emit ?rd w)") auto
  obtain cs2 where rec: "evaluate_batches e m ds msk bs p1 w1 = (cs2, preds', w')"
    using Cons.prems ex by (auto simp: evaluate_batch_def Let_def split: prod.splits)
  obtain a where a: "extends_by (emit ?rd w) w1 a" "list_all scoring_event a"
    using evaluate_examples_frame [OF ex] by auto
  obtain d where d: "extends_by w1 w' d" "list_all scoring_event d"
    using Cons.IH [OF rec] by auto
  have "extends_by w w' (([?rd] @ a) @ d)"
    by (rule extends_by_trans [OF extends_by_trans [OF extends_by_emit a(1)] d(1)])
  moreover have "list_all scoring_event (([?rd] @ a) @ d)"
    using a(2) d(2) by (simp add: scoring_event_def)
  ultimately show ?case by blast
qed

lemma evaluate_on_dataset_frame:
  "evaluate_on_dataset e m ds w \<noteq> Throws err w'"
  "evaluate_on_dataset e m ds w = Returns r w' \<Longrightarrow>
   \<exists>evs. extends_by w w' evs \<and> list_all training_event evs \<and> train_marks evs = []"
proof -
  show "evaluate_on_dataset e m ds w \<noteq> Throws err w'"
    by (simp add: evaluate_on_dataset_def Let_def split: option.splits prod.splits)
  assume r: "evaluate_on_dataset e m ds w = Returns r w'"
  let ?w1 = "emit EvEvaluate w"
  let ?ones = "fill_mask_ones (stack_garbage e) (int dropout_mask_max_size)"
  let ?p0 = "replicate (unat (n_examples (index ds))) (0 :: real)"
  obtain bs w2 where gb: "generate_batches e ds False ?w1 = Some (bs, w2)"
    using r by (auto simp: evaluate_on_dataset_def Let_def split: option.splits)
  have w2: "w2 = ?w1" using gb by (auto simp: generate_batches_def split: option.splits)
  obtain cs preds w3 where eb: "evaluate_batches e m ds ?ones bs ?p0 ?w1 = (cs, preds, w3)"
    by (cases "evaluate_batches e m ds ?ones bs ?p0 ?w1") auto
  obtain c x where w': "w' = emit (EvReport c x) w3"
    using r gb w2 eb by (auto simp: evaluate_on_dataset_def Let_def split: if_splits)
  obtain evs where evs: "extends_by ?w1 w3 evs" "list_all scoring_event evs"
    using evaluate_batches_frame [OF eb] by auto
  note t = list_all_scoring_training [OF evs(2)]
  have "extends_by w w' (([EvEvaluate] @ evs) @ [EvReport c x])"
    unfolding w'
    by (rule extends_by_trans [OF extends_by_trans [OF extends_by_emit evs(1)] extends_by_emit])
  moreover have "list_all training_event (([EvEvaluate] @ evs) @ [EvReport c x])"
    using t by (simp add: training_event_def)
  moreover have "train_marks (([EvEvaluate] @ evs) @ [EvReport c x]) = []"
    using t by (simp add: train_marks_def train_mark_def)
  ultimately show "\<exists>evs. extends_by w w' evs \<and> list_all training_event evs \<and>
      train_marks evs = []"
    by blast
qed


lemma predict_examples_frame:
  "predict_examples e m ds msk bf bso ei ei_end w = w' \<Longrightarrow>
   \<exists>evs. extends_by w w' evs \<and> list_all predicting_event evs"
proof (induction e m ds msk bf bso ei ei_end w rule: predict_examples.induct)
  case (1 e m ds msk bf bso ei ei_end w)
  show ?case
  proof (cases "ei < ei_end")
    case False
    then have "w' = w" using "1.prems" by (simp add: predict_examples.simps)
    then show ?thesis by (intro exI [of _ "[]"]) (simp add: extends_by_refl)
  next
    case True
    let ?w1 = "predict_example e m ds msk bf bso ei w"
    have rec: "predict_examples e m ds msk bf bso (ei + 1) ei_end ?w1 = w'"
      using "1.prems" True by (subst (asm) predict_examples.simps) simp
    obtain a b where ab: "?w1 = emit b (emit a w)" "predicting_event a" "predicting_event b"
      by (auto simp: predict_example_def Let_def predicting_event_def)
    obtain evs where evs: "extends_by ?w1 w' evs" "list_all predicting_event evs"
      using "1.IH" [OF True rec] by auto
    have "extends_by w w' (([a] @ [b]) @ evs)"
      using extends_by_trans [OF extends_by_trans [OF extends_by_emit extends_by_emit]
          evs(1) [unfolded ab(1)]] .
    then show ?thesis using ab(2,3) evs(2) by (intro exI [of _ "([a] @ [b]) @ evs"]) simp
  qed
qed

lemma predict_batches_frame:
  "predict_batches e m ds msk bs cnt w = (cnt', w') \<Longrightarrow>
   \<exists>evs. extends_by w w' evs \<and> list_all predicting_event evs"
proof (induction bs arbitrary: cnt w)
  case Nil
  then show ?case by (intro exI [of _ "[]"]) (simp add: extends_by_refl)
next
  case (Cons b bs)
  let ?bso = "offsets (index ds) ! unat (fst b)"
  let ?beo = "offsets (index ds) ! unat (snd b)"
  let ?rd = "EvReadBatch (data_file_name ds) ?bso ?beo"
  let ?bf = "read_batch e (data_file_name ds) ?bso ?beo"
  let ?w2 = "predict_examples e m ds msk ?bf ?bso (fst b) (snd b) (emit ?rd w)"
  have rec: "predict_batches e m ds msk bs (cnt + (snd b - fst b)) ?w2 = (cnt', w')"
    using Cons.prems by (simp add: Let_def)
  obtain a where a: "extends_by (emit ?rd w) ?w2 a" "list_all predicting_event a"
    using predict_examples_frame [of e m ds msk ?bf ?bso "fst b" "snd b" "emit ?rd w" ?w2]
    by blast
  obtain d where d: "extends_by ?w2 w' d" "list_all predicting_event d"
    using Cons.IH [OF rec] by auto
  have "extends_by w w' (([?rd] @ a) @ d)"
    by (rule extends_by_trans [OF extends_by_trans [OF extends_by_emit a(1)] d(1)])
  moreover have "list_all predicting_event (([?rd] @ a) @ d)"
    using a(2) d(2) by (simp add: predicting_event_def)
  ultimately show ?case by blast
qed

lemma predict_on_dataset_frame:
  "predict_on_dataset e m ds w \<noteq> Throws err w'"
  "predict_on_dataset e m ds w = Returns u w' \<Longrightarrow>
   \<exists>evs. extends_by w w' evs \<and> list_all run_event evs \<and> train_marks evs = []"
proof -
  show "predict_on_dataset e m ds w \<noteq> Throws err w'"
    by (simp add: predict_on_dataset_def Let_def split: option.splits prod.splits)
  assume r: "predict_on_dataset e m ds w = Returns u w'"
  let ?w1 = "emit EvPredictPass w"
  let ?ones = "fill_mask_ones (stack_garbage e) (int dropout_mask_max_size)"
  obtain bs w2 where gb: "generate_batches e ds False ?w1 = Some (bs, w2)"
    using r by (auto simp: predict_on_dataset_def Let_def split: option.splits)
  have w2: "w2 = ?w1" using gb by (auto simp: generate_batches_def split: option.splits)
  obtain cnt w3 where pb: "predict_batches e m ds ?ones bs 0 ?w1 = (cnt, w3)"
    by (cases "predict_batches e m ds ?ones bs 0 ?w1") auto
  have w': "w' = emit (EvReportCount (unat cnt)) w3"
    using r gb w2 pb by (auto simp: predict_on_dataset_def Let_def)
  obtain evs where evs: "extends_by ?w1 w3 evs" "list_all predicting_event evs"
    using predict_batches_frame [OF pb] by auto
  note t = list_all_predicting_run [OF evs(2)]
  have "extends_by w w' (([EvPredictPass] @ evs) @ [EvReportCount (unat cnt)])"
    unfolding w'
    by (rule extends_by_trans [OF extends_by_trans [OF extends_by_emit evs(1)] extends_by_emit])
  moreover have "list_all run_event (([EvPredictPass] @ evs) @ [EvReportCount (unat cnt)])"
    using t by (simp add: run_event_def)
  moreover have "train_marks (([EvPredictPass] @ evs) @ [EvReportCount (unat cnt)]) = []"
    using t by (simp add: train_marks_def train_mark_def)
  ultimately show "\<exists>evs. extends_by w w' evs \<and> list_all run_event evs \<and> train_marks evs = []"
    by blast
qed

lemma train_epochs_Returns:
  "train_epochs e ds 1 eps m w = Returns m' w' \<Longrightarrow>
   \<exists>evs. extends_by w w' evs \<and> list_all training_event evs \<and>
     train_marks evs = replicate (length eps) 1"
proof (induction eps arbitrary: m w)
  case Nil
  then show ?case by (intro exI [of _ "[]"]) (simp add: extends_by_refl train_marks_def)
next
  case (Cons ep eps)
  let ?w0 = "emit (EvEpoch ep) w"
  show ?case
  proof (cases "train_on_dataset e m ds 1 ?w0")
    case (Returns r w1)
    have rec: "train_epochs e ds 1 eps (snd r) w1 = Returns m' w'"
      using Cons.prems Returns by simp
    obtain a where a: "extends_by ?w0 w1 a" "list_all training_event a" "train_marks a = [1]"
      using train_pass_frame [of e m ds ?w0 r w1] Returns by auto
    obtain d where d: "extends_by w1 w' d" "list_all training_event d"
        "train_marks d = replicate (length eps) 1"
      using Cons.IH [OF rec] by auto
    have "extends_by w w' (([EvEpoch ep] @ a) @ d)"
      by (rule extends_by_trans [OF extends_by_trans [OF extends_by_emit a(1)] d(1)])
    moreover have "list_all training_event (([EvEpoch ep] @ a) @ d)"
      using a(2) d(2) by (simp add: training_event_def)
    moreover have "train_marks (([EvEpoch ep] @ a) @ d) = replicate (length (ep # eps)) 1"
      using a(3) d(3) by (simp add: train_marks_append train_marks_Cons train_mark_def)
    ultimately show ?thesis by blast
  next
    case (Throws err w1)
    then show ?thesis using Cons.prems by simp
  next
    case Diverges
    then show ?thesis using Cons.prems by simp
  qed
qed

lemma train_epochs_Throws:
  "train_epochs e ds 1 eps m w = Throws err w' \<Longrightarrow>
   \<exists>evs j. extends_by w w' evs \<and> list_all training_event evs \<and>
     train_marks evs = replicate j 1 \<and> j \<le> length eps"
proof (induction eps arbitrary: m w)
  case Nil
  then show ?case by simp
next
  case (Cons ep eps)
  let ?w0 = "emit (EvEpoch ep) w"
  have ep: "train_marks [EvEpoch ep] = []" by (simp add: train_marks_def train_mark_def)
  show ?case
  proof (cases "train_on_dataset e m ds 1 ?w0")
    case (Returns r w1)
    have rec: "train_epochs e ds 1 eps (snd r) w1 = Throws err w'"
      using Cons.prems Returns by simp
    obtain a where a: "extends_by ?w0 w1 a" "list_all training_event a" "train_marks a = [1]"
      using train_pass_frame [of e m ds ?w0 r w1] Returns by auto
    obtain d j where d: "extends_by w1 w' d" "list_all training_event d"
        "train_marks d = replicate j 1" "j \<le> length eps"
      using Cons.IH [OF rec] by auto
    have "extends_by w w' (([EvEpoch ep] @ a) @ d)"
      by (rule extends_by_trans [OF extends_by_trans [OF extends_by_emit a(1)] d(1)])
    moreover have "list_all training_event (([EvEpoch ep] @ a) @ d)"
      using a(2) d(2) by (simp add: training_event_def)
    moreover have "train_marks (([EvEpoch ep] @ a) @ d) = replicate (Suc j) 1"
      using a(3) d(3) by (simp add: train_marks_append train_marks_Cons train_mark_def)
    ultimately show ?thesis using d(4) by (intro exI [of _ "([EvEpoch ep] @ a) @ d"]
          exI [of _ "Suc j"]) simp
  next
    case (Throws err1 w1)
    then have eq: "w1 = w'" using Cons.prems by simp
    obtain a where a: "extends_by ?w0 w1 a" "list_all training_event a" "train_marks a = [1]"
      using train_pass_frame [of e m ds ?w0 _ w1 err1] Throws by auto
    have "extends_by w w' ([EvEpoch ep] @ a)"
      unfolding eq [symmetric] by (rule extends_by_trans [OF extends_by_emit a(1)])
    moreover have "list_all training_event ([EvEpoch ep] @ a)"
      using a(2) by (simp add: training_event_def)
    moreover have "train_marks ([EvEpoch ep] @ a) = replicate (Suc 0) 1"
      using a(3) by (simp add: train_marks_append train_marks_Cons train_mark_def)
    ultimately show ?thesis by (intro exI [of _ "[EvEpoch ep] @ a"] exI [of _ "Suc 0"]) simp
  next
    case Diverges
    then show ?thesis using Cons.prems by simp
  qed
qed


lemma train_val_epochs_Returns:
  "train_val_epochs e ds dv 1 eps m w = Returns m' w' \<Longrightarrow>
   \<exists>evs. extends_by w w' evs \<and> list_all training_event evs \<and>
     train_marks evs = replicate (length eps) 1"
proof (induction eps arbitrary: m w)
  case Nil
  then show ?case by (intro exI [of _ "[]"]) (simp add: extends_by_refl train_marks_def)
next
  case (Cons ep eps)
  let ?w0 = "emit (EvEpoch ep) w"
  show ?case
  proof (cases "train_on_dataset e m ds 1 ?w0")
    case (Returns r w1)
    show ?thesis
    proof (cases "evaluate_on_dataset e (snd r) dv w1")
      case R2: (Returns r2 w2)
      have rec: "train_val_epochs e ds dv 1 eps (snd r) w2 = Returns m' w'"
        using Cons.prems Returns R2 by simp
      obtain a where a: "extends_by ?w0 w1 a" "list_all training_event a" "train_marks a = [1]"
        using train_pass_frame [of e m ds ?w0 r w1] Returns by auto
      obtain b where b: "extends_by w1 w2 b" "list_all training_event b" "train_marks b = []"
        using evaluate_on_dataset_frame(2) [OF R2] by auto
      obtain d where d: "extends_by w2 w' d" "list_all training_event d"
          "train_marks d = replicate (length eps) 1"
        using Cons.IH [OF rec] by auto
      have "extends_by w w' ((([EvEpoch ep] @ a) @ b) @ d)"
        by (rule extends_by_trans [OF extends_by_trans [OF extends_by_trans
              [OF extends_by_emit a(1)] b(1)] d(1)])
      moreover have "list_all training_event ((([EvEpoch ep] @ a) @ b) @ d)"
        using a(2) b(2) d(2) by (simp add: training_event_def)
      moreover have "train_marks ((([EvEpoch ep] @ a) @ b) @ d) =
          replicate (length (ep # eps)) 1"
        using a(3) b(3) d(3) by (simp add: train_marks_append train_marks_Cons train_mark_def)
      ultimately show ?thesis by blast
    next
      case (Throws err w2)
      then show ?thesis using Cons.prems Returns by simp
    next
      case Diverges
      then show ?thesis using Cons.prems Returns by simp
    qed
  next
    case (Throws err w1)
    then show ?thesis using Cons.prems by simp
  next
    case Diverges
    then show ?thesis using Cons.prems by simp
  qed
qed

lemma train_val_epochs_Throws:
  "train_val_epochs e ds dv 1 eps m w = Throws err w' \<Longrightarrow>
   \<exists>evs j. extends_by w w' evs \<and> list_all training_event evs \<and>
     train_marks evs = replicate j 1 \<and> j \<le> length eps"
proof (induction eps arbitrary: m w)
  case Nil
  then show ?case by simp
next
  case (Cons ep eps)
  let ?w0 = "emit (EvEpoch ep) w"
  show ?case
  proof (cases "train_on_dataset e m ds 1 ?w0")
    case (Returns r w1)
    show ?thesis
    proof (cases "evaluate_on_dataset e (snd r) dv w1")
      case R2: (Returns r2 w2)
      have rec: "train_val_epochs e ds dv 1 eps (snd r) w2 = Throws err w'"
        using Cons.prems Returns R2 by simp
      obtain a where a: "extends_by ?w0 w1 a" "list_all training_event a" "train_marks a = [1]"
        using train_pass_frame [of e m ds ?w0 r w1] Returns by auto
      obtain b where b: "extends_by w1 w2 b" "list_all training_event b" "train_marks b = []"
        using evaluate_on_dataset_frame(2) [OF R2] by auto
      obtain d j where d: "extends_by w2 w' d" "list_all training_event d"
          "train_marks d = replicate j 1" "j \<le> length eps"
        using Cons.IH [OF rec] by auto
      have "extends_by w w' ((([EvEpoch ep] @ a) @ b) @ d)"
        by (rule extends_by_trans [OF extends_by_trans [OF extends_by_trans
              [OF extends_by_emit a(1)] b(1)] d(1)])
      moreover have "list_all training_event ((([EvEpoch ep] @ a) @ b) @ d)"
        using a(2) b(2) d(2) by (simp add: training_event_def)
      moreover have "train_marks ((([EvEpoch ep] @ a) @ b) @ d) = replicate (Suc j) 1"
        using a(3) b(3) d(3) by (simp add: train_marks_append train_marks_Cons train_mark_def)
      ultimately show ?thesis using d(4)
        by (intro exI [of _ "(([EvEpoch ep] @ a) @ b) @ d"] exI [of _ "Suc j"]) simp
    next
      case (Throws err2 w2)
      then show ?thesis using evaluate_on_dataset_frame(1) [of e "snd r" dv w1 err2 w2] by simp
    next
      case Diverges
      then show ?thesis using Cons.prems Returns by simp
    qed
  next
    case (Throws err1 w1)
    then have eq: "w1 = w'" using Cons.prems by simp
    obtain a where a: "extends_by ?w0 w1 a" "list_all training_event a" "train_marks a = [1]"
      using train_pass_frame [of e m ds ?w0 _ w1 err1] Throws by auto
    have "extends_by w w' ([EvEpoch ep] @ a)"
      unfolding eq [symmetric] by (rule extends_by_trans [OF extends_by_emit a(1)])
    moreover have "list_all training_event ([EvEpoch ep] @ a)"
      using a(2) by (simp add: training_event_def)
    moreover have "train_marks ([EvEpoch ep] @ a) = replicate (Suc 0) 1"
      using a(3) by (simp add: train_marks_append train_marks_Cons train_mark_def)
    ultimately show ?thesis by (intro exI [of _ "[EvEpoch ep] @ a"] exI [of _ "Suc 0"]) simp
  next
    case Diverges
    then show ?thesis using Cons.prems by simp
  qed
qed

lemma train_epochs_total:
  assumes "entropy_ok e" and "mask_sizes_ok e"
    and "unat (n_examples (index ds)) + 20000 \<le> 2 ^ 64"
  shows "\<exists>m' w'. train_epochs e ds k eps m w = Returns m' w'"
proof (induction eps arbitrary: m w)
  case Nil
  then show ?case by simp
next
  case (Cons ep eps)
  obtain loss m1 w1 where
    "train_on_dataset e m ds k (emit (EvEpoch ep) w) = Returns (loss, m1) w1"
    using train_on_dataset_total [OF assms] by blast
  moreover obtain m' w' where "train_epochs e ds k eps m1 w1 = Returns m' w'"
    using Cons.IH by blast
  ultimately have "train_epochs e ds k (ep # eps) m w = Returns m' w'" by simp
  then show ?case by blast
qed

lemma run_training_Returns:
  assumes "run_training e cmd ds 1 m w = Returns m' w'"
  shows "\<exists>evs. extends_by w w' evs \<and> list_all training_event evs \<and>
    train_marks evs = replicate (n_epochs cmd) 1"
proof (cases "val_file_name cmd = []")
  case True
  then have "train_epochs e ds 1 [0..<n_epochs cmd] m w = Returns m' w'"
    using assms by (simp add: run_training_def)
  from train_epochs_Returns [OF this] show ?thesis by simp
next
  case False
  let ?ld = "EvLoadIndex (val_file_name cmd @ ''.index'')"
  let ?dv = "\<lparr>index = read_index e (val_file_name cmd @ ''.index''),
      data_file_name = val_file_name cmd @ ''.data''\<rparr>"
  have "train_val_epochs e ds ?dv 1 [0..<n_epochs cmd] m (emit ?ld w) = Returns m' w'"
    using assms False by (simp add: run_training_def load_dataset_def split: if_splits)
  from train_val_epochs_Returns [OF this]
  obtain evs where evs: "extends_by (emit ?ld w) w' evs" "list_all training_event evs"
      "train_marks evs = replicate (n_epochs cmd) 1"
    by auto
  have "extends_by w w' ([?ld] @ evs)" by (rule extends_by_trans [OF extends_by_emit evs(1)])
  moreover have "list_all training_event ([?ld] @ evs)"
    using evs(2) by (simp add: training_event_def)
  moreover have "train_marks ([?ld] @ evs) = replicate (n_epochs cmd) 1"
    using evs(3) by (simp add: train_marks_Cons train_mark_def)
  ultimately show ?thesis by blast
qed

lemma run_training_Throws:
  assumes "run_training e cmd ds 1 m w = Throws err w'"
  shows "\<exists>evs j. extends_by w w' evs \<and> list_all training_event evs \<and>
    train_marks evs = replicate j 1 \<and> j \<le> n_epochs cmd"
proof (cases "val_file_name cmd = []")
  case True
  then have "train_epochs e ds 1 [0..<n_epochs cmd] m w = Throws err w'"
    using assms by (simp add: run_training_def)
  from train_epochs_Throws [OF this] show ?thesis by simp
next
  case False
  let ?ld = "EvLoadIndex (val_file_name cmd @ ''.index'')"
  let ?dv = "\<lparr>index = read_index e (val_file_name cmd @ ''.index''),
      data_file_name = val_file_name cmd @ ''.data''\<rparr>"
  have ld: "list_all training_event [?ld]" "train_marks [?ld] = []"
    by (simp_all add: training_event_def train_marks_def train_mark_def)
  show ?thesis
  proof (cases "n_index_bits (index ?dv) \<noteq> n_index_bits (index ds)")
    case True
    then have "w' = emit ?ld w"
      using assms False by (simp add: run_training_def load_dataset_def)
    then have "extends_by w w' [?ld]" by (simp add: extends_by_emit)
    then show ?thesis using ld by (intro exI [of _ "[?ld]"] exI [of _ 0]) simp
  next
    case F2: False
    then have "train_val_epochs e ds ?dv 1 [0..<n_epochs cmd] m (emit ?ld w) = Throws err w'"
      using assms False by (simp add: run_training_def load_dataset_def)
    from train_val_epochs_Throws [OF this]
    obtain evs j where evs: "extends_by (emit ?ld w) w' evs" "list_all training_event evs"
        "train_marks evs = replicate j 1" "j \<le> n_epochs cmd"
      by auto
    have "extends_by w w' ([?ld] @ evs)" by (rule extends_by_trans [OF extends_by_emit evs(1)])
    moreover have "list_all training_event ([?ld] @ evs)"
      using evs(2) by (simp add: training_event_def)
    moreover have "train_marks ([?ld] @ evs) = replicate j 1"
      using evs(3) by (simp add: train_marks_Cons train_mark_def)
    ultimately show ?thesis using evs(4) by blast
  qed
qed


lemma train_marks_Nil: "train_marks [] = []"
  by (simp add: train_marks_def)

lemma run_unfold:
  "run e cmd w =
     (case run_training e cmd (train_dataset_of e cmd) 1 (first_model e cmd) (started cmd w) of
        Returns m w2 \<Rightarrow>
          (case run_prediction e cmd (train_dataset_of e cmd) m w2 of
             Returns u w3 \<Rightarrow> Returns 0 w3
           | Throws err w3 \<Rightarrow> Throws err w3
           | Diverges \<Rightarrow> Diverges)
      | Throws err w2 \<Rightarrow> Throws err w2
      | Diverges \<Rightarrow> Diverges)"
  by (simp add: run_def load_dataset_def train_dataset_of_def started_def first_model_def Let_def
      cong: outcome.case_cong)

lemma started_extends:
  "trace (started cmd w) = trace w @ [EvLoadIndex (train_file_name cmd @ ''.index'')]"
  by (simp add: started_def emit_def)

lemma run_prediction_mismatch:
  assumes "test_file_name cmd \<noteq> []" and "pred_file_name cmd \<noteq> []"
    and "n_index_bits (read_index e (test_file_name cmd @ ''.index'')) \<noteq>
         n_index_bits (index ds)"
  shows "run_prediction e cmd ds m w =
    Throws (RuntimeError ''Mismatching index bits in train and test'')
      (emit (EvLoadIndex (test_file_name cmd @ ''.index'')) w)"
  using assms by (simp add: run_prediction_def load_dataset_def)


lemma run_prediction_Throws:
  assumes "run_prediction e cmd ds m w = Throws err w'"
  shows "w' = emit (EvLoadIndex (test_file_name cmd @ ''.index'')) w"
proof -
  let ?ld = "EvLoadIndex (test_file_name cmd @ ''.index'')"
  let ?op = "EvOpenOutput (pred_file_name cmd)"
  let ?dt = "\<lparr>index = read_index e (test_file_name cmd @ ''.index''),
      data_file_name = test_file_name cmd @ ''.data''\<rparr>"
  have "predict_on_dataset e m ?dt (emit ?op (emit ?ld w)) \<noteq> Throws err w'"
    by (rule predict_on_dataset_frame(1))
  then show ?thesis
    using assms by (auto simp: run_prediction_def load_dataset_def split: if_splits)
qed



lemma run_Throws:
  assumes "run e cmd w = Throws err w'"
  shows "\<exists>evs j. trace w' = trace w @ evs \<and> list_all training_event evs \<and>
    train_marks evs = replicate j 1 \<and> j \<le> n_epochs cmd"
proof -
  let ?ds = "train_dataset_of e cmd"
  let ?ld = "EvLoadIndex (train_file_name cmd @ ''.index'')"
  let ?lt = "EvLoadIndex (test_file_name cmd @ ''.index'')"
  show ?thesis
  proof (cases "run_training e cmd ?ds 1 (first_model e cmd) (started cmd w)")
    case (Returns m2 w2)
    then have p: "run_prediction e cmd ?ds m2 w2 = Throws err w'"
      using assms unfolding run_unfold by (auto split: outcome.splits)
    obtain a where a: "extends_by (started cmd w) w2 a" "list_all training_event a"
        "train_marks a = replicate (n_epochs cmd) 1"
      using run_training_Returns [OF Returns] by auto
    have w': "w' = emit ?lt w2" by (rule run_prediction_Throws [OF p])
    have "trace w' = trace w @ ?ld # a @ [?lt]"
      using a(1) started_extends [of cmd w] by (simp add: extends_by_def w' emit_def)
    moreover have "list_all training_event (?ld # a @ [?lt])"
      using a(2) by (simp add: training_event_def)
    moreover have "train_marks (?ld # a @ [?lt]) = replicate (n_epochs cmd) 1"
      using a(3)
    by (simp add: train_marks_Cons train_marks_append train_marks_Nil train_mark_def)
    ultimately show ?thesis by blast
  next
    case (Throws err2 w2)
    then have eq: "w2 = w'" using assms unfolding run_unfold by simp
    obtain a j where a: "extends_by (started cmd w) w2 a" "list_all training_event a"
        "train_marks a = replicate j 1" "j \<le> n_epochs cmd"
      using run_training_Throws [OF Throws] by auto
    have "trace w' = trace w @ ?ld # a"
      using a(1) started_extends [of cmd w] by (simp add: extends_by_def eq)
    moreover have "list_all training_event (?ld # a)"
      using a(2) by (simp add: training_event_def)
    moreover have "train_marks (?ld # a) = replicate j 1"
      using a(3) by (simp add: train_marks_Cons train_mark_def)
    ultimately show ?thesis using a(4) by blast
  next
    case Diverges
    then show ?thesis using assms unfolding run_unfold by simp
  qed
qed


lemmas demo_run_simps =
  run_def run_training_def run_prediction_def load_dataset_def
  train_on_dataset_def generate_batches_def batches_loop.simps batch_size_def
  min_T_def std_shuffle_def generate_mini_batches_def mini_batches_loop.simps
  mini_batch_size_def train_batch_def train_examples.simps train_example_def
  demo_env_def demo_dataset_def demo_index_def demo_sys_def
  fill_mask_rand_ok example_features_def slice_def compute_norm_def emit_def Let_def
  omp_reduction_def dropout_mult_of_def shl_one_def




section \<open>Gradient steps and the model\<close>

lemma model_after_append:
  "model_after e m (a @ b) = model_after e (model_after e m a) b"
  by (induction a arbitrary: m) simp_all

lemma steps_from_append:
  "steps_from e ds d m (a @ b) \<longleftrightarrow>
     steps_from e ds d m a \<and> steps_from e ds d (model_after e m a) b"
  by (induction a arbitrary: m) (auto split: event.splits)

lemma advances_same: "trace w' = trace w \<Longrightarrow> advances e ds d m w w' m"
  unfolding advances_def by (intro exI [of _ "[]"]) simp

lemma advances_trans:
  assumes "advances e ds d m w w1 m1" and "advances e ds d m1 w1 w2 m2"
  shows "advances e ds d m w w2 m2"
proof -
  obtain a where a: "trace w1 = trace w @ a" "steps_from e ds d m a" "m1 = model_after e m a"
    using assms(1) unfolding advances_def by blast
  obtain b where b: "trace w2 = trace w1 @ b" "steps_from e ds d m1 b" "m2 = model_after e m1 b"
    using assms(2) unfolding advances_def by blast
  have "trace w2 = trace w @ (a @ b)" using a(1) b(1) by simp
  moreover have "steps_from e ds d m (a @ b)" using a(2,3) b(2) by (simp add: steps_from_append)
  moreover have "m2 = model_after e m (a @ b)" using a(3) b(3) by (simp add: model_after_append)
  ultimately show ?thesis unfolding advances_def by blast
qed

lemma advances_read: "advances e ds d m w (emit (EvReadBatch f a b) w) m"
  unfolding advances_def by (intro exI [of _ "[EvReadBatch f a b]"]) (simp add: emit_def)

lemma train_example_advances:
  assumes "train_example e ds k dmult bf bso ei m msk w = Returns (l, m', msk') w'"
  shows "advances e ds dmult m w w' m'"
proof -
  let ?fs = "example_features ds bf bso ei"
  obtain r pos where f: "fill_mask_rand (rdrand64_step e) msk
      (int ((get_dropout_mask_size e m ?fs + 63) div 64)) (int k) (hw_pos w) = (r, pos)"
    by (cases "fill_mask_rand (rdrand64_step e) msk
      (int ((get_dropout_mask_size e m ?fs + 63) div 64)) (int k) (hw_pos w)")
  show ?thesis
  proof (cases r)
    case (Inl err)
    then show ?thesis using assms f by (simp add: train_example_def Let_def)
  next
    case (Inr mk)
    then show ?thesis using assms f
      by (auto simp: train_example_def Let_def advances_def emit_def)
  qed
qed

lemma train_examples_advances:
  "train_examples e ds k dmult bf bso ei ei_end loss m msk w = Returns (loss', m', msk') w' \<Longrightarrow>
   advances e ds dmult m w w' m'"
proof (induction e ds k dmult bf bso ei ei_end loss m msk w
    rule: train_examples.induct)
  case (1 e ds k dmult bf bso ei ei_end loss m msk w)
  show ?case
  proof (cases "ei < ei_end")
    case False
    then have "w' = w" "m' = m"
      using "1.prems" by (simp_all add: train_examples.simps)
    then show ?thesis by (simp add: advances_same)
  next
    case True
    show ?thesis
    proof (cases "train_example e ds k dmult bf bso ei m msk w")
      case (Returns r w1)
      obtain l m1 msk1 where r: "r = (l, m1, msk1)" by (cases r) auto
      have rec: "train_examples e ds k dmult bf bso (ei + 1) ei_end (loss + l) m1 msk1 w1 =
          Returns (loss', m', msk') w'"
        using "1.prems" True Returns r by (simp add: train_examples.simps)
      have a: "advances e ds dmult m w w1 m1"
        using train_example_advances [of e ds k dmult bf bso ei m msk w l m1 msk1 w1] Returns r
        by simp
      have b: "advances e ds dmult m1 w1 w' m'"
        by (rule "1.IH" [OF True Returns r [symmetric] refl rec])
      show ?thesis by (rule advances_trans [OF a b])
    next
      case (Throws err w1)
      then show ?thesis using "1.prems" True by (simp add: train_examples.simps)
    next
      case Diverges
      then show ?thesis using "1.prems" True by (simp add: train_examples.simps)
    qed
  qed
qed

lemma train_examples_advances_Throws:
  "train_examples e ds k dmult bf bso ei ei_end loss m msk w = Throws err w' \<Longrightarrow>
   \<exists>m'. advances e ds dmult m w w' m'"
proof (induction e ds k dmult bf bso ei ei_end loss m msk w
    rule: train_examples.induct)
  case (1 e ds k dmult bf bso ei ei_end loss m msk w)
  show ?case
  proof (cases "ei < ei_end")
    case False
    then show ?thesis using "1.prems" by (simp add: train_examples.simps)
  next
    case True
    show ?thesis
    proof (cases "train_example e ds k dmult bf bso ei m msk w")
      case (Returns r w1)
      obtain l m1 msk1 where r: "r = (l, m1, msk1)" by (cases r) auto
      have rec: "train_examples e ds k dmult bf bso (ei + 1) ei_end (loss + l) m1 msk1 w1 =
          Throws err w'"
        using "1.prems" True Returns r by (simp add: train_examples.simps)
      have a: "advances e ds dmult m w w1 m1"
        using train_example_advances [of e ds k dmult bf bso ei m msk w l m1 msk1 w1] Returns r
        by simp
      obtain m' where b: "advances e ds dmult m1 w1 w' m'"
        using "1.IH" [OF True Returns r [symmetric] refl rec] by blast
      show ?thesis using advances_trans [OF a b] by blast
    next
      case (Throws err1 w1)
      then have "w1 = w'" using "1.prems" True by (simp add: train_examples.simps)
      then have "trace w' = trace w"
        using train_example_Throws [of e ds k dmult bf bso ei m msk w err1 w1] Throws
        by (simp add: extends_by_def)
      then have "advances e ds dmult m w w' m" by (rule advances_same)
      then show ?thesis by blast
    next
      case Diverges
      then show ?thesis using "1.prems" True by (simp add: train_examples.simps)
    qed
  qed
qed

lemma train_mini_batches_advances:
  "train_mini_batches e ds k dmult bf bso mbs loss m msk w = Returns (loss', m', msk') w' \<Longrightarrow>
   advances e ds dmult m w w' m'"
proof (induction mbs arbitrary: loss m msk w)
  case Nil
  then show ?case by (simp add: advances_same)
next
  case (Cons mb mbs)
  show ?case
  proof (cases "train_examples e ds k dmult bf bso (fst mb) (snd mb) loss m msk w")
    case (Returns r w1)
    obtain l1 m1 msk1 where r: "r = (l1, m1, msk1)" by (cases r) auto
    have rec: "train_mini_batches e ds k dmult bf bso mbs l1 m1 msk1 w1 =
        Returns (loss', m', msk') w'"
      using Cons.prems Returns r by simp
    have a: "advances e ds dmult m w w1 m1"
      using train_examples_advances [of e ds k dmult bf bso "fst mb" "snd mb" loss m msk w
          l1 m1 msk1 w1] Returns r by simp
    show ?thesis by (rule advances_trans [OF a Cons.IH [OF rec]])
  next
    case (Throws err w1)
    then show ?thesis using Cons.prems by simp
  next
    case Diverges
    then show ?thesis using Cons.prems by simp
  qed
qed

lemma train_mini_batches_advances_Throws:
  "train_mini_batches e ds k dmult bf bso mbs loss m msk w = Throws err w' \<Longrightarrow>
   \<exists>m'. advances e ds dmult m w w' m'"
proof (induction mbs arbitrary: loss m msk w)
  case Nil
  then show ?case by simp
next
  case (Cons mb mbs)
  show ?case
  proof (cases "train_examples e ds k dmult bf bso (fst mb) (snd mb) loss m msk w")
    case (Returns r w1)
    obtain l1 m1 msk1 where r: "r = (l1, m1, msk1)" by (cases r) auto
    have rec: "train_mini_batches e ds k dmult bf bso mbs l1 m1 msk1 w1 = Throws err w'"
      using Cons.prems Returns r by simp
    have a: "advances e ds dmult m w w1 m1"
      using train_examples_advances [of e ds k dmult bf bso "fst mb" "snd mb" loss m msk w
          l1 m1 msk1 w1] Returns r by simp
    obtain m' where b: "advances e ds dmult m1 w1 w' m'" using Cons.IH [OF rec] by blast
    show ?thesis using advances_trans [OF a b] by blast
  next
    case (Throws err1 w1)
    then have "train_examples e ds k dmult bf bso (fst mb) (snd mb) loss m msk w = Throws err w'"
      using Cons.prems by simp
    then show ?thesis by (rule train_examples_advances_Throws)
  next
    case Diverges
    then show ?thesis using Cons.prems by simp
  qed
qed

lemma train_batch_advances:
  assumes "train_batch e ds k dmult b m w = Returns (c, m') w'"
  shows "advances e ds dmult m w w' m'"
proof (cases "generate_mini_batches (fst b) (snd b)")
  case None
  then show ?thesis using assms by (simp add: train_batch_def Let_def)
next
  case (Some mbs)
  let ?bso = "offsets (index ds) ! unat (fst b)"
  let ?beo = "offsets (index ds) ! unat (snd b)"
  let ?rd = "EvReadBatch (data_file_name ds) ?bso ?beo"
  let ?bf = "read_batch e (data_file_name ds) ?bso ?beo"
  obtain sh w2 where sh: "std_shuffle e mbs (emit ?rd w) = (sh, w2)"
    by (cases "std_shuffle e mbs (emit ?rd w)")
  have "trace w2 = trace (emit ?rd w)"
    using std_shuffle_extends(1) [OF sh] by (simp add: extends_by_def)
  then have a: "advances e ds dmult m w w2 m"
    by (rule advances_trans [OF advances_read advances_same])
  show ?thesis
  proof (cases "train_mini_batches e ds k dmult ?bf ?bso sh 0 m (stack_garbage e) w2")
    case (Returns r w3)
    obtain l m3 msk3 where r: "r = (l, m3, msk3)" by (cases r) auto
    have eq: "w3 = w'" "m3 = m'"
      using assms Some sh Returns r by (simp_all add: train_batch_def Let_def)
    have "advances e ds dmult m w2 w3 m3"
      using train_mini_batches_advances [of e ds k dmult ?bf ?bso sh 0 m "stack_garbage e" w2
          l m3 msk3 w3] Returns r by simp
    then show ?thesis using advances_trans [OF a] eq by blast
  next
    case (Throws err w3)
    then show ?thesis using assms Some sh by (simp add: train_batch_def Let_def)
  next
    case Diverges
    then show ?thesis using assms Some sh by (simp add: train_batch_def Let_def)
  qed
qed

lemma train_batch_advances_Throws:
  assumes "train_batch e ds k dmult b m w = Throws err w'"
  shows "\<exists>m'. advances e ds dmult m w w' m'"
proof (cases "generate_mini_batches (fst b) (snd b)")
  case None
  then show ?thesis using assms by (simp add: train_batch_def Let_def)
next
  case (Some mbs)
  let ?bso = "offsets (index ds) ! unat (fst b)"
  let ?beo = "offsets (index ds) ! unat (snd b)"
  let ?rd = "EvReadBatch (data_file_name ds) ?bso ?beo"
  let ?bf = "read_batch e (data_file_name ds) ?bso ?beo"
  obtain sh w2 where sh: "std_shuffle e mbs (emit ?rd w) = (sh, w2)"
    by (cases "std_shuffle e mbs (emit ?rd w)")
  have "trace w2 = trace (emit ?rd w)"
    using std_shuffle_extends(1) [OF sh] by (simp add: extends_by_def)
  then have a: "advances e ds dmult m w w2 m"
    by (rule advances_trans [OF advances_read advances_same])
  show ?thesis
  proof (cases "train_mini_batches e ds k dmult ?bf ?bso sh 0 m (stack_garbage e) w2")
    case (Returns r w3)
    then show ?thesis using assms Some sh
      by (simp add: train_batch_def Let_def split: prod.splits)
  next
    case (Throws err3 w3)
    then have eq: "w3 = w'" using assms Some sh by (simp add: train_batch_def Let_def)
    obtain m' where "advances e ds dmult m w2 w3 m'"
      using train_mini_batches_advances_Throws [OF Throws] by blast
    then show ?thesis using advances_trans [OF a] eq by blast
  next
    case Diverges
    then show ?thesis using assms Some sh by (simp add: train_batch_def Let_def)
  qed
qed

lemma train_batches_advances:
  "train_batches e ds k dmult bs m w = Returns (cs, m') w' \<Longrightarrow> advances e ds dmult m w w' m'"
proof (induction bs arbitrary: m w cs)
  case Nil
  then show ?case by (simp add: advances_same)
next
  case (Cons b bs)
  show ?case
  proof (cases "train_batch e ds k dmult b m w")
    case (Returns r w1)
    obtain c m1 where r: "r = (c, m1)" by (cases r) auto
    show ?thesis
    proof (cases "train_batches e ds k dmult bs m1 w1")
      case R2: (Returns r2 w2)
      obtain cs2 m2 where r2: "r2 = (cs2, m2)" by (cases r2) auto
      have eq: "w2 = w'" "m2 = m'"
        using Cons.prems Returns r R2 r2 by simp_all
      have rec: "train_batches e ds k dmult bs m1 w1 = Returns (cs2, m') w'"
        using R2 r2 eq by simp
      have a: "advances e ds dmult m w w1 m1"
        using train_batch_advances [of e ds k dmult b m w c m1 w1] Returns r by simp
      show ?thesis by (rule advances_trans [OF a Cons.IH [OF rec]])
    next
      case (Throws err w2)
      then show ?thesis using Cons.prems Returns r by simp
    next
      case Diverges
      then show ?thesis using Cons.prems Returns r by simp
    qed
  next
    case (Throws err w1)
    then show ?thesis using Cons.prems by simp
  next
    case Diverges
    then show ?thesis using Cons.prems by simp
  qed
qed

lemma train_batches_advances_Throws:
  "train_batches e ds k dmult bs m w = Throws err w' \<Longrightarrow> \<exists>m'. advances e ds dmult m w w' m'"
proof (induction bs arbitrary: m w)
  case Nil
  then show ?case by simp
next
  case (Cons b bs)
  show ?case
  proof (cases "train_batch e ds k dmult b m w")
    case (Returns r w1)
    obtain c m1 where r: "r = (c, m1)" by (cases r) auto
    have rec: "train_batches e ds k dmult bs m1 w1 = Throws err w'"
      using Cons.prems Returns r
      by (cases "train_batches e ds k dmult bs m1 w1") (simp_all split: prod.splits)
    have a: "advances e ds dmult m w w1 m1"
      using train_batch_advances [of e ds k dmult b m w c m1 w1] Returns r by simp
    obtain m' where b: "advances e ds dmult m1 w1 w' m'" using Cons.IH [OF rec] by blast
    show ?thesis using advances_trans [OF a b] by blast
  next
    case (Throws err1 w1)
    then have "train_batch e ds k dmult b m w = Throws err w'" using Cons.prems by simp
    then show ?thesis by (rule train_batch_advances_Throws)
  next
    case Diverges
    then show ?thesis using Cons.prems by simp
  qed
qed

lemma train_on_dataset_steps:
  assumes r: "train_on_dataset e m ds k w = Returns (loss, m') w'"
  shows "\<exists>evs c x. trace w' = trace w @ EvTrain k # evs @ [EvReport c x] \<and>
    steps_from e ds (dropout_mult_of k) m evs \<and> m' = model_after e m evs \<and>
    (unat (n_examples (index ds)) + 20000 \<le> 2 ^ 64 \<longrightarrow>
       mset (stepped evs) = mset [0..<unat (n_examples (index ds))])"
proof -
  let ?n = "unat (n_examples (index ds))"
  let ?B = "map to_u64 (ranges 20000 0 ?n)"
  let ?w1 = "emit (EvTrain k) w"
  obtain bs w2 where gb: "generate_batches e ds True ?w1 = Some (bs, w2)"
    using r by (cases "generate_batches e ds True ?w1") (auto simp: train_on_dataset_def Let_def)
  obtain xs where sh: "std_shuffle e xs ?w1 = (bs, w2)"
    using gb by (auto simp: generate_batches_def split: option.splits)
  have t2: "trace w2 = trace ?w1"
    using std_shuffle_extends(1) [OF sh] by (simp add: extends_by_def)
  show ?thesis
  proof (cases "train_batches e ds k (dropout_mult_of k) bs m w2")
    case (Returns r3 w3)
    obtain cs m3 where r3: "r3 = (cs, m3)" by (cases r3) auto
    have m3: "m3 = m'" using r gb Returns r3 by (auto simp: train_on_dataset_def Let_def)
    obtain c x where w': "w' = emit (EvReport c x) w3"
      using r gb Returns r3 by (auto simp: train_on_dataset_def Let_def)
    have tb: "train_batches e ds k (dropout_mult_of k) bs m w2 = Returns (cs, m') w3"
      using Returns r3 m3 by simp
    obtain evs where evs: "trace w3 = trace w2 @ evs"
        "steps_from e ds (dropout_mult_of k) m evs" "m' = model_after e m evs"
      using train_batches_advances [OF tb] unfolding advances_def by blast
    have tr: "trace w' = trace w @ EvTrain k # evs @ [EvReport c x]"
      using evs(1) t2 by (simp add: w' emit_def)
    have cov: "mset (stepped evs) = mset [0..<?n]" if n: "?n + 20000 \<le> 2 ^ 64"
    proof -
      have n64: "?n < 2 ^ 64" using n by simp
      have z: "0 \<le> ?n" and c: "(0 :: nat) < 20000" by simp_all
      have sh': "std_shuffle e ?B ?w1 = (bs, w2)"
        using generate_batches_shuffled [OF n, of e ?w1] gb by simp
      note s = std_shuffle_extends [OF sh']
      have bnd: "\<forall>b\<in>set bs. fst b \<le> snd b \<and> unat (snd b) + 24 \<le> 2 ^ 64"
      proof
        fix b assume "b \<in> set bs"
        then have "b \<in> set ?B" using s(2) by (metis mset_eq_setD)
        then show "fst b \<le> snd b \<and> unat (snd b) + 24 \<le> 2 ^ 64"
          using planned_batch_bounds [OF n64 z c, of b] n by simp
      qed
      obtain evs' where evs': "extends_by w2 w3 evs'"
          "mset (stepped evs') = mset (concat (map examples_of bs))"
        using train_batches_Returns [OF tb] bnd by blast
      have "evs' = evs" using evs'(1) evs(1) by (simp add: extends_by_def)
      then have "mset (stepped evs) = mset (concat (map examples_of ?B))"
        using evs'(2) mset_concat_map_cong [OF s(2), of examples_of] by simp
      then show ?thesis using examples_of_ranges [OF n64 z c] by simp
    qed
    show ?thesis using tr evs(2,3) cov by blast
  next
    case (Throws err w3)
    then show ?thesis using r gb by (simp add: train_on_dataset_def Let_def)
  next
    case Diverges
    then show ?thesis using r gb by (simp add: train_on_dataset_def Let_def)
  qed
qed

lemma train_on_dataset_steps_Throws:
  assumes r: "train_on_dataset e m ds k w = Throws err w'"
  shows "\<exists>evs. trace w' = trace w @ EvTrain k # evs \<and>
    steps_from e ds (dropout_mult_of k) m evs"
proof -
  let ?w1 = "emit (EvTrain k) w"
  obtain bs w2 where gb: "generate_batches e ds True ?w1 = Some (bs, w2)"
    using r by (cases "generate_batches e ds True ?w1") (auto simp: train_on_dataset_def Let_def)
  obtain xs where sh: "std_shuffle e xs ?w1 = (bs, w2)"
    using gb by (auto simp: generate_batches_def split: option.splits)
  have t2: "trace w2 = trace ?w1"
    using std_shuffle_extends(1) [OF sh] by (simp add: extends_by_def)
  show ?thesis
  proof (cases "train_batches e ds k (dropout_mult_of k) bs m w2")
    case (Returns r3 w3)
    then show ?thesis using r gb by (simp add: train_on_dataset_def Let_def split: prod.splits)
  next
    case (Throws err3 w3)
    then have w': "w3 = w'" using r gb by (simp add: train_on_dataset_def Let_def)
    obtain evs where evs: "trace w3 = trace w2 @ evs"
        "steps_from e ds (dropout_mult_of k) m evs"
      using train_batches_advances_Throws [OF Throws] unfolding advances_def by blast
    have "trace w' = trace w @ EvTrain k # evs"
      using evs(1) t2 by (simp add: w' [symmetric] emit_def)
    then show ?thesis using evs(2) by blast
  next
    case Diverges
    then show ?thesis using r gb by (simp add: train_on_dataset_def Let_def)
  qed
qed

lemma zero_score_gradients:
  assumes "\<forall>m fs nrm msk dm. predict e m fs nrm msk dm = 0"
  shows "steps_from e ds d m evs \<Longrightarrow>
    gradients evs = map (\<lambda>i. (i, - (labels (index ds) ! i) / 2)) (stepped evs)"
proof (induction evs arbitrary: m)
  case Nil
  then show ?case by (simp add: gradients_def stepped_def)
next
  case (Cons ev evs)
  show ?case
  proof (cases ev)
    case (EvTrainStep ei fs nrm msk dm t g)
    have c: "t = predict e m fs nrm msk dm \<and>
        g = - (labels (index ds) ! unat ei) * exp (- (labels (index ds) ! unat ei) * t)
            / (1 + exp (- (labels (index ds) ! unat ei) * t)) \<and>
        steps_from e ds d (update e m fs nrm g msk dm) evs"
      using Cons.prems unfolding EvTrainStep steps_from.simps event.case by blast
    have t: "t = 0" using c assms by simp
    have g: "g = - (labels (index ds) ! unat ei) / 2" using c unfolding t by simp
    have "steps_from e ds d (update e m fs nrm g msk dm) evs" using c by (elim conjE)
    then have "gradients evs = map (\<lambda>i. (i, - (labels (index ds) ! i) / 2)) (stepped evs)"
      by (rule Cons.IH)
    then show ?thesis
      using EvTrainStep g by (simp add: gradients_def stepped_def step_gradient_def step_index_def)
  next
    case (EvReadBatch f a b)
    then have "steps_from e ds d m evs" using Cons.prems by simp
    then have "gradients evs = map (\<lambda>i. (i, - (labels (index ds) ! i) / 2)) (stepped evs)"
      by (rule Cons.IH)
    then show ?thesis
      using EvReadBatch by (simp add: gradients_def stepped_def step_gradient_def step_index_def)
  qed (use Cons.prems in simp_all)
qed

lemma counting_model_after:
  assumes "\<forall>m fs nrm g msk dm. update e m fs nrm g msk dm = Suc m"
  shows "steps_from e ds d m evs \<Longrightarrow> model_after e m evs = m + length (stepped evs)"
proof (induction evs arbitrary: m)
  case Nil
  then show ?case by (simp add: stepped_def)
next
  case (Cons ev evs)
  show ?case
  proof (cases ev)
    case (EvTrainStep ei fs nrm msk dm t g)
    have "steps_from e ds d (update e m fs nrm g msk dm) evs"
      using Cons.prems unfolding EvTrainStep steps_from.simps event.case by blast
    then have "steps_from e ds d (Suc m) evs" using assms by simp
    then have "model_after e (Suc m) evs = Suc m + length (stepped evs)" by (rule Cons.IH)
    then show ?thesis using EvTrainStep assms by (simp add: stepped_def step_index_def)
  next
    case (EvReadBatch f a b)
    then have "steps_from e ds d m evs" using Cons.prems by simp
    then have "model_after e m evs = m + length (stepped evs)" by (rule Cons.IH)
    then show ?thesis using EvReadBatch by (simp add: stepped_def step_index_def)
  qed (use Cons.prems in simp_all)
qed

text \<open>
  C6. For \<open>1 \<le> k \<le> 30\<close> the dropout multiplier that \<open>train_on_dataset\<close> computes is
  \<open>2^k / (2^k - 1)\<close>. A training pass that returns has taken, between its first line and
  its summary line, a chain of example steps that starts on the model it was given: every
  step calls \<open>predict\<close> on the model the steps before it have left, with this multiplier,
  and then \<open>update\<close> on the same model with the same multiplier and the gradient scale
  \<open>-y exp (-y t) / (1 + exp (-y t))\<close>, where \<open>y\<close> is the label of the example and \<open>t\<close> the
  score that \<open>predict\<close> has just returned; the next step goes on from the model that
  \<open>update\<close> returned, and the model the pass returns is the one the last \<open>update\<close> returned.
  With the planner's bound on \<open>n_examples\<close> every example \<open>0 ..< n_examples\<close> has exactly
  one step. A pass that throws has taken such a chain up to the throw. Where the entropy
  source does not fail, the pass returns.
\<close>

theorem train_multiplier_and_gradient:
  assumes "1 \<le> k" and "k \<le> 30"
  shows "dropout_mult_of k = 2 ^ k / (2 ^ k - 1) \<and>
    (\<forall>loss m' w'. train_on_dataset e m ds k w = Returns (loss, m') w' \<longrightarrow>
       (\<exists>evs c x. trace w' = trace w @ EvTrain k # evs @ [EvReport c x] \<and>
          steps_from e ds (2 ^ k / (2 ^ k - 1)) m evs \<and> m' = model_after e m evs \<and>
          (unat (n_examples (index ds)) + 20000 \<le> 2 ^ 64 \<longrightarrow>
             mset (stepped evs) = mset [0..<unat (n_examples (index ds))]))) \<and>
    (\<forall>err w'. train_on_dataset e m ds k w = Throws err w' \<longrightarrow>
       (\<exists>evs. trace w' = trace w @ EvTrain k # evs \<and>
          steps_from e ds (2 ^ k / (2 ^ k - 1)) m evs)) \<and>
    (entropy_ok e \<and> mask_sizes_ok e \<and> unat (n_examples (index ds)) + 20000 \<le> 2 ^ 64 \<longrightarrow>
       (\<exists>loss m' w'. train_on_dataset e m ds k w = Returns (loss, m') w'))"
proof (intro conjI allI impI)
  show v: "dropout_mult_of k = 2 ^ k / (2 ^ k - 1)" by (rule dropout_mult_of_value [OF assms(2)])
  {
    fix loss m' w'
    assume "train_on_dataset e m ds k w = Returns (loss, m') w'"
    from train_on_dataset_steps [OF this]
    show "\<exists>evs c x. trace w' = trace w @ EvTrain k # evs @ [EvReport c x] \<and>
          steps_from e ds (2 ^ k / (2 ^ k - 1)) m evs \<and> m' = model_after e m evs \<and>
          (unat (n_examples (index ds)) + 20000 \<le> 2 ^ 64 \<longrightarrow>
             mset (stepped evs) = mset [0..<unat (n_examples (index ds))])"
      unfolding v .
  }
  {
    fix err w'
    assume "train_on_dataset e m ds k w = Throws err w'"
    from train_on_dataset_steps_Throws [OF this]
    show "\<exists>evs. trace w' = trace w @ EvTrain k # evs \<and>
          steps_from e ds (2 ^ k / (2 ^ k - 1)) m evs"
      unfolding v .
  }
  assume "entropy_ok e \<and> mask_sizes_ok e \<and> unat (n_examples (index ds)) + 20000 \<le> 2 ^ 64"
  then show "\<exists>loss m' w'. train_on_dataset e m ds k w = Returns (loss, m') w'"
    using train_on_dataset_total [of e ds m k w] by blast
qed

theorem train_multiplier_and_gradient_witness:
  "(1 :: nat) \<le> 1 \<and> (1 :: nat) \<le> 30 \<and> entropy_ok demo_env \<and> mask_sizes_ok demo_env \<and>
   unat (n_examples (index (demo_dataset 3))) + 20000 \<le> 2 ^ 64 \<and>
   labels (index (demo_dataset 3)) = [1, - 1, 1] \<and> dropout_mult_of 1 = 2 \<and>
   (\<exists>loss w' evs c x.
      train_on_dataset demo_env 0 (demo_dataset 3) 1 demo_sys = Returns (loss, 3) w' \<and>
      trace w' = EvTrain 1 # evs @ [EvReport c x] \<and>
      steps_from demo_env (demo_dataset 3) 2 0 evs \<and>
      mset (stepped evs) = mset [0, 1, 2] \<and>
      mset (gradients evs) = mset [(0, - 1 / 2), (1, 1 / 2), (2, - 1 / 2)])"
proof -
  have h1: "(1 :: nat) \<le> 1" and h2: "(1 :: nat) \<le> 30" by simp_all
  note th = train_multiplier_and_gradient [OF h1 h2, of demo_env 0 "demo_dataset 3" demo_sys]
  have n3: "unat (n_examples (index (demo_dataset 3))) = 3" by (simp add: demo_dataset_def)
  have n: "unat (n_examples (index (demo_dataset 3))) + 20000 \<le> 2 ^ 64" by (simp add: n3)
  have h3: "entropy_ok demo_env" by (simp add: entropy_ok_def demo_env_def)
  have h4: "mask_sizes_ok demo_env" by (simp add: mask_sizes_ok_def demo_env_def)
  have l: "labels (index (demo_dataset 3)) = [1, - 1, 1]"
    by (simp add: demo_dataset_def demo_index_def)
  have p: "\<forall>m fs nrm msk dm. predict demo_env m fs nrm msk dm = 0" by (simp add: demo_env_def)
  have u: "\<forall>m fs nrm g msk dm. update demo_env m fs nrm g msk dm = Suc m"
    by (simp add: demo_env_def)
  have v: "dropout_mult_of 1 = 2" using th by simp
  have two: "(2 :: real) ^ 1 / (2 ^ 1 - 1) = 2" by simp
  obtain loss m' w' where
    r: "train_on_dataset demo_env 0 (demo_dataset 3) 1 demo_sys = Returns (loss, m') w'"
    using th h3 h4 n by blast
  obtain evs c x where
    t: "trace w' = trace demo_sys @ EvTrain 1 # evs @ [EvReport c x]" and
    s: "steps_from demo_env (demo_dataset 3) (2 ^ 1 / (2 ^ 1 - 1)) 0 evs" and
    m': "m' = model_after demo_env 0 evs" and
    cov: "mset (stepped evs) = mset [0..<unat (n_examples (index (demo_dataset 3)))]"
    using th r n by blast
  have s2: "steps_from demo_env (demo_dataset 3) 2 0 evs" using s unfolding two .
  have upt: "[0..<3] = [0, 1, 2 :: nat]" by (simp add: upt_rec)
  have cov3: "mset (stepped evs) = mset [0, 1, 2]" using cov unfolding n3 upt .
  have "length (stepped evs) = 3" using mset_eq_length [OF cov3] by simp
  then have "m' = 3" using counting_model_after [OF u s2] m' by simp
  then have r3: "train_on_dataset demo_env 0 (demo_dataset 3) 1 demo_sys = Returns (loss, 3) w'"
    using r by simp
  have t3: "trace w' = EvTrain 1 # evs @ [EvReport c x]" using t by (simp add: demo_sys_def)
  have "mset (gradients evs) =
      image_mset (\<lambda>i. (i, - (labels (index (demo_dataset 3)) ! i) / 2)) (mset (stepped evs))"
    unfolding zero_score_gradients [OF p s2] by simp
  then have g: "mset (gradients evs) = mset [(0, - 1 / 2), (1, 1 / 2), (2, - 1 / 2)]"
    unfolding cov3 l by simp
  have "\<exists>loss w' evs c x.
      train_on_dataset demo_env 0 (demo_dataset 3) 1 demo_sys = Returns (loss, 3) w' \<and>
      trace w' = EvTrain 1 # evs @ [EvReport c x] \<and>
      steps_from demo_env (demo_dataset 3) 2 0 evs \<and>
      mset (stepped evs) = mset [0, 1, 2] \<and>
      mset (gradients evs) = mset [(0, - 1 / 2), (1, 1 / 2), (2, - 1 / 2)]"
    by (intro exI [of _ loss] exI [of _ w'] exI [of _ evs] exI [of _ c] exI [of _ x] conjI
        r3 t3 s2 cov3 g)
  then show ?thesis using h1 h2 h3 h4 n l v by blast
qed

section \<open>Mismatching index bits\<close>

lemma fill_word_loop_error:
  "fill_word_loop hw msk p i k pos = (Inl err, pos') \<Longrightarrow> err = draw_failed"
proof (induction hw msk p i k pos rule: fill_word_loop.induct)
  case (1 hw msk p i k pos)
  note eq = fill_word_loop.simps [of hw msk p i k pos]
  show ?case
  proof (cases "i < k")
    case False
    then show ?thesis using "1.prems" unfolding eq by simp
  next
    case True
    show ?thesis
    proof (cases "hw pos")
      case None
      then show ?thesis using "1.prems" True unfolding eq by (simp add: draw_failed_def)
    next
      case (Some v)
      then have "fill_word_loop hw (msk(nat p := msk (nat p) OR v)) p (i + 1) k (pos + 1) =
          (Inl err, pos')"
        using "1.prems" True unfolding eq by simp
      then show ?thesis by (rule "1.IH" [OF True Some])
    qed
  qed
qed

lemma fill_mask_loop_error:
  "fill_mask_loop hw msk p sz k pos = (Inl err, pos') \<Longrightarrow> err = draw_failed"
proof (induction hw msk p sz k pos rule: fill_mask_loop.induct)
  case (1 hw msk p sz k pos)
  note eq = fill_mask_loop.simps [of hw msk p sz k pos]
  show ?case
  proof (cases "p < sz")
    case False
    then show ?thesis using "1.prems" unfolding eq by simp
  next
    case True
    obtain r q where f: "fill_word_loop hw msk p 0 k pos = (r, q)"
      by (cases "fill_word_loop hw msk p 0 k pos")
    show ?thesis
    proof (cases r)
      case (Inl err1)
      then have "err1 = err" using "1.prems" True f unfolding eq by simp
      then show ?thesis using fill_word_loop_error [of hw msk p 0 k pos err q] f Inl by simp
    next
      case (Inr msk1)
      then have "fill_mask_loop hw msk1 (p + 1) sz k q = (Inl err, pos')"
        using "1.prems" True f unfolding eq by simp
      then show ?thesis using "1.IH" [OF True f [symmetric] Inr] by simp
    qed
  qed
qed

lemma train_example_error:
  assumes "train_example e ds k dmult bf bso ei m msk w = Throws err w'"
  shows "err = draw_failed"
proof -
  let ?fs = "example_features ds bf bso ei"
  obtain r pos where f: "fill_mask_rand (rdrand64_step e) msk
      (int ((get_dropout_mask_size e m ?fs + 63) div 64)) (int k) (hw_pos w) = (r, pos)"
    by (cases "fill_mask_rand (rdrand64_step e) msk
      (int ((get_dropout_mask_size e m ?fs + 63) div 64)) (int k) (hw_pos w)")
  show ?thesis
  proof (cases r)
    case (Inl err1)
    then have "err1 = err" using assms f by (simp add: train_example_def Let_def)
    then show ?thesis
      using f Inl fill_mask_loop_error unfolding fill_mask_rand_def by blast
  next
    case (Inr mk)
    then show ?thesis using assms f by (simp add: train_example_def Let_def)
  qed
qed

lemma train_examples_error:
  "train_examples e ds k dmult bf bso ei ei_end loss m msk w = Throws err w' \<Longrightarrow>
   err = draw_failed"
proof (induction e ds k dmult bf bso ei ei_end loss m msk w
    rule: train_examples.induct)
  case (1 e ds k dmult bf bso ei ei_end loss m msk w)
  show ?case
  proof (cases "ei < ei_end")
    case False
    then show ?thesis using "1.prems" by (simp add: train_examples.simps)
  next
    case True
    show ?thesis
    proof (cases "train_example e ds k dmult bf bso ei m msk w")
      case (Returns r w1)
      obtain l m1 msk1 where r: "r = (l, m1, msk1)" by (cases r) auto
      have rec: "train_examples e ds k dmult bf bso (ei + 1) ei_end (loss + l) m1 msk1 w1 =
          Throws err w'"
        using "1.prems" True Returns r by (simp add: train_examples.simps)
      show ?thesis by (rule "1.IH" [OF True Returns r [symmetric] refl rec])
    next
      case (Throws err1 w1)
      then have "train_example e ds k dmult bf bso ei m msk w = Throws err w'"
        using "1.prems" True by (simp add: train_examples.simps)
      then show ?thesis by (rule train_example_error)
    next
      case Diverges
      then show ?thesis using "1.prems" True by (simp add: train_examples.simps)
    qed
  qed
qed

lemma train_mini_batches_error:
  "train_mini_batches e ds k dmult bf bso mbs loss m msk w = Throws err w' \<Longrightarrow>
   err = draw_failed"
proof (induction mbs arbitrary: loss m msk w)
  case Nil
  then show ?case by simp
next
  case (Cons mb mbs)
  show ?case
  proof (cases "train_examples e ds k dmult bf bso (fst mb) (snd mb) loss m msk w")
    case (Returns r w1)
    obtain l1 m1 msk1 where r: "r = (l1, m1, msk1)" by (cases r) auto
    have rec: "train_mini_batches e ds k dmult bf bso mbs l1 m1 msk1 w1 = Throws err w'"
      using Cons.prems Returns r by simp
    show ?thesis by (rule Cons.IH [OF rec])
  next
    case (Throws err1 w1)
    then have "train_examples e ds k dmult bf bso (fst mb) (snd mb) loss m msk w = Throws err w'"
      using Cons.prems by simp
    then show ?thesis by (rule train_examples_error)
  next
    case Diverges
    then show ?thesis using Cons.prems by simp
  qed
qed

lemma train_batch_error:
  assumes "train_batch e ds k dmult b m w = Throws err w'"
  shows "err = draw_failed"
proof (cases "generate_mini_batches (fst b) (snd b)")
  case None
  then show ?thesis using assms by (simp add: train_batch_def Let_def)
next
  case (Some mbs)
  let ?bso = "offsets (index ds) ! unat (fst b)"
  let ?beo = "offsets (index ds) ! unat (snd b)"
  let ?rd = "EvReadBatch (data_file_name ds) ?bso ?beo"
  let ?bf = "read_batch e (data_file_name ds) ?bso ?beo"
  obtain sh w2 where sh: "std_shuffle e mbs (emit ?rd w) = (sh, w2)"
    by (cases "std_shuffle e mbs (emit ?rd w)")
  show ?thesis
  proof (cases "train_mini_batches e ds k dmult ?bf ?bso sh 0 m (stack_garbage e) w2")
    case (Returns r w3)
    then show ?thesis using assms Some sh
      by (simp add: train_batch_def Let_def split: prod.splits)
  next
    case (Throws err3 w3)
    then have "err3 = err" using assms Some sh by (simp add: train_batch_def Let_def)
    then show ?thesis using train_mini_batches_error [OF Throws] by simp
  next
    case Diverges
    then show ?thesis using assms Some sh by (simp add: train_batch_def Let_def)
  qed
qed

lemma train_batches_error:
  "train_batches e ds k dmult bs m w = Throws err w' \<Longrightarrow> err = draw_failed"
proof (induction bs arbitrary: m w)
  case Nil
  then show ?case by simp
next
  case (Cons b bs)
  show ?case
  proof (cases "train_batch e ds k dmult b m w")
    case (Returns r w1)
    obtain c m1 where r: "r = (c, m1)" by (cases r) auto
    have rec: "train_batches e ds k dmult bs m1 w1 = Throws err w'"
      using Cons.prems Returns r
      by (cases "train_batches e ds k dmult bs m1 w1") (simp_all split: prod.splits)
    show ?thesis by (rule Cons.IH [OF rec])
  next
    case (Throws err1 w1)
    then have "train_batch e ds k dmult b m w = Throws err w'" using Cons.prems by simp
    then show ?thesis by (rule train_batch_error)
  next
    case Diverges
    then show ?thesis using Cons.prems by simp
  qed
qed

lemma train_on_dataset_error:
  assumes "train_on_dataset e m ds k w = Throws err w'"
  shows "err = draw_failed"
proof (cases "generate_batches e ds True (emit (EvTrain k) w)")
  case None
  then show ?thesis using assms by (simp add: train_on_dataset_def Let_def)
next
  case (Some p)
  obtain bs w2 where p: "p = (bs, w2)" by (cases p) auto
  show ?thesis
  proof (cases "train_batches e ds k (dropout_mult_of k) bs m w2")
    case (Returns r w3)
    then show ?thesis using assms Some p
      by (simp add: train_on_dataset_def Let_def split: prod.splits)
  next
    case (Throws err3 w3)
    then have "err3 = err" using assms Some p by (simp add: train_on_dataset_def Let_def)
    then show ?thesis using train_batches_error [OF Throws] by simp
  next
    case Diverges
    then show ?thesis using assms Some p by (simp add: train_on_dataset_def Let_def)
  qed
qed

lemma train_epochs_error:
  "train_epochs e ds k eps m w = Throws err w' \<Longrightarrow> err = draw_failed"
proof (induction eps arbitrary: m w)
  case Nil
  then show ?case by simp
next
  case (Cons ep eps)
  show ?case
  proof (cases "train_on_dataset e m ds k (emit (EvEpoch ep) w)")
    case (Returns r w1)
    then have "train_epochs e ds k eps (snd r) w1 = Throws err w'" using Cons.prems by simp
    then show ?thesis by (rule Cons.IH)
  next
    case (Throws err1 w1)
    then have "train_on_dataset e m ds k (emit (EvEpoch ep) w) = Throws err w'"
      using Cons.prems by simp
    then show ?thesis by (rule train_on_dataset_error)
  next
    case Diverges
    then show ?thesis using Cons.prems by simp
  qed
qed

lemma train_val_epochs_error:
  "train_val_epochs e ds dv k eps m w = Throws err w' \<Longrightarrow> err = draw_failed"
proof (induction eps arbitrary: m w)
  case Nil
  then show ?case by simp
next
  case (Cons ep eps)
  show ?case
  proof (cases "train_on_dataset e m ds k (emit (EvEpoch ep) w)")
    case (Returns r w1)
    show ?thesis
    proof (cases "evaluate_on_dataset e (snd r) dv w1")
      case R2: (Returns r2 w2)
      then have "train_val_epochs e ds dv k eps (snd r) w2 = Throws err w'"
        using Cons.prems Returns by simp
      then show ?thesis by (rule Cons.IH)
    next
      case (Throws err2 w2)
      then show ?thesis using evaluate_on_dataset_frame(1) [of e "snd r" dv w1 err2 w2] by simp
    next
      case Diverges
      then show ?thesis using Cons.prems Returns by simp
    qed
  next
    case (Throws err1 w1)
    then have "train_on_dataset e m ds k (emit (EvEpoch ep) w) = Throws err w'"
      using Cons.prems by simp
    then show ?thesis by (rule train_on_dataset_error)
  next
    case Diverges
    then show ?thesis using Cons.prems by simp
  qed
qed

lemma run_training_error:
  assumes "run_training e cmd ds k m w = Throws err w'"
  shows "err = draw_failed \<or> err = RuntimeError ''Mismatching index bits in train and val''"
proof (cases "val_file_name cmd = []")
  case True
  then have "train_epochs e ds k [0..<n_epochs cmd] m w = Throws err w'"
    using assms by (simp add: run_training_def)
  then have "err = draw_failed" by (rule train_epochs_error)
  then show ?thesis by simp
next
  case False
  let ?dv = "\<lparr>index = read_index e (val_file_name cmd @ ''.index''),
      data_file_name = val_file_name cmd @ ''.data''\<rparr>"
  let ?w1 = "emit (EvLoadIndex (val_file_name cmd @ ''.index'')) w"
  show ?thesis
  proof (cases "n_index_bits (index ?dv) \<noteq> n_index_bits (index ds)")
    case True
    then show ?thesis
      using assms False by (simp add: run_training_def load_dataset_def)
  next
    case eq: False
    then have "train_val_epochs e ds ?dv k [0..<n_epochs cmd] m ?w1 = Throws err w'"
      using assms False by (simp add: run_training_def load_dataset_def)
    then have "err = draw_failed" by (rule train_val_epochs_error)
    then show ?thesis by simp
  qed
qed

lemma evaluate_on_dataset_total:
  assumes n: "unat (n_examples (index ds)) + 20000 \<le> 2 ^ 64"
    and nb: "unat (n_examples (index ds)) div 20000 + 1 < 2 ^ 32"
  shows "\<exists>r w'. evaluate_on_dataset e m ds w = Returns r w'"
proof -
  let ?n = "unat (n_examples (index ds))"
  let ?B = "map to_u64 (ranges 20000 0 ?n)"
  have gb: "generate_batches e ds False (emit EvEvaluate w) = Some (?B, emit EvEvaluate w)"
    by (rule generate_batches_plain [OF n])
  have "length ?B \<le> ?n div 20000 + 1" using length_ranges [of 20000 0 ?n] by simp
  then have "\<not> 2 ^ 32 \<le> length ?B" using nb by simp
  then show ?thesis
    unfolding evaluate_on_dataset_def Let_def gb by (simp split: prod.splits)
qed

lemma train_val_epochs_total:
  assumes "entropy_ok e" and "mask_sizes_ok e"
    and "unat (n_examples (index ds)) + 20000 \<le> 2 ^ 64"
    and "unat (n_examples (index dv)) + 20000 \<le> 2 ^ 64"
    and "unat (n_examples (index dv)) div 20000 + 1 < 2 ^ 32"
  shows "\<exists>m' w'. train_val_epochs e ds dv k eps m w = Returns m' w'"
proof (induction eps arbitrary: m w)
  case Nil
  then show ?case by simp
next
  case (Cons ep eps)
  obtain loss m1 w1 where
    t: "train_on_dataset e m ds k (emit (EvEpoch ep) w) = Returns (loss, m1) w1"
    using train_on_dataset_total [OF assms(1-3)] by blast
  obtain r2 w2 where v: "evaluate_on_dataset e m1 dv w1 = Returns r2 w2"
    using evaluate_on_dataset_total [OF assms(4,5), of e m1 w1] by blast
  obtain m' w' where "train_val_epochs e ds dv k eps m1 w2 = Returns m' w'"
    using Cons.IH by blast
  then have "train_val_epochs e ds dv k (ep # eps) m w = Returns m' w'"
    using t v by simp
  then show ?case by blast
qed

lemma run_training_total:
  assumes "entropy_ok e" and "mask_sizes_ok e"
    and "unat (n_examples (index ds)) + 20000 \<le> 2 ^ 64"
    and "val_file_name cmd = [] \<or>
      n_index_bits (read_index e (val_file_name cmd @ ''.index'')) = n_index_bits (index ds) \<and>
      unat (n_examples (read_index e (val_file_name cmd @ ''.index''))) + 20000 \<le> 2 ^ 64 \<and>
      unat (n_examples (read_index e (val_file_name cmd @ ''.index''))) div 20000 + 1 < 2 ^ 32"
  shows "\<exists>m' w'. run_training e cmd ds k m w = Returns m' w'"
proof (cases "val_file_name cmd = []")
  case True
  then show ?thesis
    using train_epochs_total [OF assms(1-3)] by (simp add: run_training_def)
next
  case False
  let ?dv = "\<lparr>index = read_index e (val_file_name cmd @ ''.index''),
      data_file_name = val_file_name cmd @ ''.data''\<rparr>"
  have a: "unat (n_examples (index ?dv)) + 20000 \<le> 2 ^ 64"
    and b: "unat (n_examples (index ?dv)) div 20000 + 1 < 2 ^ 32"
    and c: "n_index_bits (index ?dv) = n_index_bits (index ds)"
    using assms(4) False by simp_all
  show ?thesis
    using train_val_epochs_total [OF assms(1-3) a b] c False
    by (simp add: run_training_def load_dataset_def)
qed

text \<open>
  C2. A validation file whose \<open>n_index_bits\<close> differs from the training file's makes \<open>run\<close>
  throw right after the two indexes are loaded: nothing is trained, no batch is read and no
  output file is opened. With a test file whose \<open>n_index_bits\<close> differs (and an output name
  given) the run never returns normally, and whenever it throws, no output file has been
  opened, no prediction pass has started and nothing has been written. But this check stands
  after the epoch loop, with or without a validation file: whenever \<open>run\<close> throws the test
  error, all \<open>n_epochs\<close> training passes have been entered and the test index is the last
  thing loaded; whenever the epoch loop returns, \<open>run\<close> throws the test error; and the
  epoch loop does return where the entropy source does not fail and, if a validation file
  is given, its index bits match and its size is one that evaluation can handle. In the
  small instance the examples \<open>0\<close>, \<open>1\<close>, \<open>2\<close> have been trained on when the error is
  thrown.
\<close>

theorem index_bits_mismatch:
  "(val_file_name cmd \<noteq> [] \<and>
    n_index_bits (read_index e (val_file_name cmd @ ''.index'')) \<noteq>
      n_index_bits (read_index e (train_file_name cmd @ ''.index'')) \<longrightarrow>
      (\<exists>w'. run e cmd w =
              Throws (RuntimeError ''Mismatching index bits in train and val'') w' \<and>
            trace w' = trace w @ [EvLoadIndex (train_file_name cmd @ ''.index''),
                                  EvLoadIndex (val_file_name cmd @ ''.index'')])) \<and>
   (test_file_name cmd \<noteq> [] \<and> pred_file_name cmd \<noteq> [] \<and>
    n_index_bits (read_index e (test_file_name cmd @ ''.index'')) \<noteq>
      n_index_bits (read_index e (train_file_name cmd @ ''.index'')) \<longrightarrow>
      (\<forall>r w'. run e cmd w \<noteq> Returns r w') \<and>
      (\<forall>err w'. run e cmd w = Throws err w' \<longrightarrow>
         (\<exists>evs. trace w' = trace w @ evs \<and> list_all training_event evs)) \<and>
      (\<forall>w'. run e cmd w =
              Throws (RuntimeError ''Mismatching index bits in train and test'') w' \<longrightarrow>
         (\<exists>evs. trace w' = trace w @ evs @ [EvLoadIndex (test_file_name cmd @ ''.index'')] \<and>
            train_marks evs = replicate (n_epochs cmd) 1)) \<and>
      (\<forall>m2 w2. run_training e cmd (train_dataset_of e cmd) 1 (first_model e cmd)
                 (started cmd w) = Returns m2 w2 \<longrightarrow>
         run e cmd w =
           Throws (RuntimeError ''Mismatching index bits in train and test'')
             (emit (EvLoadIndex (test_file_name cmd @ ''.index'')) w2)) \<and>
      (entropy_ok e \<and> mask_sizes_ok e \<and>
       unat (n_examples (read_index e (train_file_name cmd @ ''.index''))) + 20000 \<le> 2 ^ 64 \<and>
       (val_file_name cmd = [] \<or>
        n_index_bits (read_index e (val_file_name cmd @ ''.index'')) =
          n_index_bits (read_index e (train_file_name cmd @ ''.index'')) \<and>
        unat (n_examples (read_index e (val_file_name cmd @ ''.index''))) + 20000 \<le> 2 ^ 64 \<and>
        unat (n_examples (read_index e (val_file_name cmd @ ''.index''))) div 20000 + 1
          < 2 ^ 32) \<longrightarrow>
         (\<exists>w' evs. run e cmd w =
              Throws (RuntimeError ''Mismatching index bits in train and test'') w' \<and>
            trace w' = trace w @ evs @ [EvLoadIndex (test_file_name cmd @ ''.index'')] \<and>
            train_marks evs = replicate (n_epochs cmd) 1)))"
proof (intro conjI impI allI)
  let ?ds = "train_dataset_of e cmd"
  let ?ld = "EvLoadIndex (train_file_name cmd @ ''.index'')"
  let ?lv = "EvLoadIndex (val_file_name cmd @ ''.index'')"
  let ?lt = "EvLoadIndex (test_file_name cmd @ ''.index'')"
  let ?terr = "RuntimeError ''Mismatching index bits in train and test''"
  let ?tr = "run_training e cmd ?ds 1 (first_model e cmd) (started cmd w)"
  {
    assume a: "val_file_name cmd \<noteq> [] \<and>
      n_index_bits (read_index e (val_file_name cmd @ ''.index'')) \<noteq>
        n_index_bits (read_index e (train_file_name cmd @ ''.index''))"
    have "run e cmd w =
        Throws (RuntimeError ''Mismatching index bits in train and val'')
          (emit ?lv (started cmd w))"
      using a unfolding run_unfold
      by (simp add: run_training_def load_dataset_def train_dataset_of_def)
    moreover have "trace (emit ?lv (started cmd w)) = trace w @ [?ld, ?lv]"
      by (simp add: emit_def started_def)
    ultimately show "\<exists>w'. run e cmd w =
              Throws (RuntimeError ''Mismatching index bits in train and val'') w' \<and>
            trace w' = trace w @ [?ld, ?lv]"
      by blast
  }
  assume b: "test_file_name cmd \<noteq> [] \<and> pred_file_name cmd \<noteq> [] \<and>
    n_index_bits (read_index e (test_file_name cmd @ ''.index'')) \<noteq>
      n_index_bits (read_index e (train_file_name cmd @ ''.index''))"
  have bits: "n_index_bits (read_index e (test_file_name cmd @ ''.index'')) \<noteq>
      n_index_bits (index ?ds)"
    using b by (simp add: train_dataset_of_def)
  have p: "\<And>m w2. run_prediction e cmd ?ds m w2 = Throws ?terr (emit ?lt w2)"
    using run_prediction_mismatch [OF _ _ bits] b by blast
  have after: "run e cmd w = Throws ?terr (emit ?lt w2) \<and>
      (\<exists>evs. trace (emit ?lt w2) = trace w @ evs @ [?lt] \<and>
         train_marks evs = replicate (n_epochs cmd) 1)"
    if t: "?tr = Returns m2 w2" for m2 w2
  proof -
    obtain a where a: "extends_by (started cmd w) w2 a"
        "train_marks a = replicate (n_epochs cmd) 1"
      using run_training_Returns [OF t] by auto
    have "run e cmd w = Throws ?terr (emit ?lt w2)"
      using t unfolding run_unfold by (simp add: p)
    moreover have "trace (emit ?lt w2) = trace w @ (?ld # a) @ [?lt]"
      using a(1) started_extends [of cmd w] by (simp add: extends_by_def emit_def)
    moreover have "train_marks (?ld # a) = replicate (n_epochs cmd) 1"
      using a(2) by (simp add: train_marks_Cons train_mark_def)
    ultimately show ?thesis by blast
  qed
  {
    fix r w'
    show "run e cmd w \<noteq> Returns r w'"
      unfolding run_unfold by (simp add: p split: outcome.splits)
  }
  {
    fix err w' assume "run e cmd w = Throws err w'"
    from run_Throws [OF this]
    show "\<exists>evs. trace w' = trace w @ evs \<and> list_all training_event evs" by blast
  }
  {
    fix w' assume th: "run e cmd w = Throws ?terr w'"
    show "\<exists>evs. trace w' = trace w @ evs @ [?lt] \<and>
        train_marks evs = replicate (n_epochs cmd) 1"
    proof (cases ?tr)
      case (Returns m2 w2)
      from after [OF this] th show ?thesis by auto
    next
      case (Throws err2 w2)
      then have "err2 = ?terr" using th unfolding run_unfold by simp
      moreover have "err2 = draw_failed \<or>
          err2 = RuntimeError ''Mismatching index bits in train and val''"
        by (rule run_training_error [OF Throws])
      ultimately show ?thesis by (simp add: draw_failed_def)
    next
      case Diverges
      then show ?thesis using th unfolding run_unfold by simp
    qed
  }
  {
    fix m2 w2 assume "?tr = Returns m2 w2"
    from after [OF this] show "run e cmd w = Throws ?terr (emit ?lt w2)" by blast
  }
  assume c: "entropy_ok e \<and> mask_sizes_ok e \<and>
       unat (n_examples (read_index e (train_file_name cmd @ ''.index''))) + 20000 \<le> 2 ^ 64 \<and>
       (val_file_name cmd = [] \<or>
        n_index_bits (read_index e (val_file_name cmd @ ''.index'')) =
          n_index_bits (read_index e (train_file_name cmd @ ''.index'')) \<and>
        unat (n_examples (read_index e (val_file_name cmd @ ''.index''))) + 20000 \<le> 2 ^ 64 \<and>
        unat (n_examples (read_index e (val_file_name cmd @ ''.index''))) div 20000 + 1
          < 2 ^ 32)"
  have n: "unat (n_examples (index ?ds)) + 20000 \<le> 2 ^ 64"
    using c by (simp add: train_dataset_of_def)
  have v: "val_file_name cmd = [] \<or>
      n_index_bits (read_index e (val_file_name cmd @ ''.index'')) = n_index_bits (index ?ds) \<and>
      unat (n_examples (read_index e (val_file_name cmd @ ''.index''))) + 20000 \<le> 2 ^ 64 \<and>
      unat (n_examples (read_index e (val_file_name cmd @ ''.index''))) div 20000 + 1 < 2 ^ 32"
    using c by (simp add: train_dataset_of_def)
  have e1: "entropy_ok e" and e2: "mask_sizes_ok e" using c by simp_all
  obtain m2 w2 where "?tr = Returns m2 w2"
    using run_training_total [OF e1 e2 n v, of 1 "first_model e cmd" "started cmd w"] by blast
  from after [OF this]
  show "\<exists>w' evs. run e cmd w = Throws ?terr w' \<and> trace w' = trace w @ evs @ [?lt] \<and>
      train_marks evs = replicate (n_epochs cmd) 1"
    by blast
qed

theorem index_bits_mismatch_witness:
  "thrown (run demo_env val_mismatch_command demo_sys) =
     Some (RuntimeError ''Mismatching index bits in train and val'') \<and>
   final_trace (run demo_env val_mismatch_command demo_sys) =
     [EvLoadIndex ''train.index'', EvLoadIndex ''val18.index''] \<and>
   thrown (run demo_env test_mismatch_command demo_sys) =
     Some (RuntimeError ''Mismatching index bits in train and test'') \<and>
   list_all training_event (final_trace (run demo_env test_mismatch_command demo_sys)) \<and>
   last (final_trace (run demo_env test_mismatch_command demo_sys)) =
     EvLoadIndex ''test18.index'' \<and>
   thrown (run demo_env val_test_mismatch_command demo_sys) =
     Some (RuntimeError ''Mismatching index bits in train and test'') \<and>
   list_all training_event (final_trace (run demo_env val_test_mismatch_command demo_sys)) \<and>
   train_marks (final_trace (run demo_env val_test_mismatch_command demo_sys)) = [1, 1] \<and>
   last (final_trace (run demo_env val_test_mismatch_command demo_sys)) =
     EvLoadIndex ''test18.index''"
proof -
  note v = index_bits_mismatch [of val_mismatch_command demo_env demo_sys]
  note t = index_bits_mismatch [of test_mismatch_command demo_env demo_sys]
  note u = index_bits_mismatch [of val_test_mismatch_command demo_env demo_sys]
  have hv: "val_file_name val_mismatch_command \<noteq> [] \<and>
      n_index_bits (read_index demo_env (val_file_name val_mismatch_command @ ''.index'')) \<noteq>
      n_index_bits (read_index demo_env (train_file_name val_mismatch_command @ ''.index''))"
    by (simp add: val_mismatch_command_def demo_command_def demo_env_def demo_index_def)
  have ht: "test_file_name test_mismatch_command \<noteq> [] \<and>
      pred_file_name test_mismatch_command \<noteq> [] \<and>
      n_index_bits (read_index demo_env (test_file_name test_mismatch_command @ ''.index'')) \<noteq>
      n_index_bits (read_index demo_env (train_file_name test_mismatch_command @ ''.index''))"
    by (simp add: test_mismatch_command_def demo_command_def demo_env_def demo_index_def)
  have hc: "entropy_ok demo_env \<and> mask_sizes_ok demo_env \<and>
      unat (n_examples (read_index demo_env
        (train_file_name test_mismatch_command @ ''.index''))) + 20000 \<le> 2 ^ 64 \<and>
      (val_file_name test_mismatch_command = [] \<or>
       n_index_bits (read_index demo_env (val_file_name test_mismatch_command @ ''.index'')) =
         n_index_bits (read_index demo_env
           (train_file_name test_mismatch_command @ ''.index'')) \<and>
       unat (n_examples (read_index demo_env
         (val_file_name test_mismatch_command @ ''.index''))) + 20000 \<le> 2 ^ 64 \<and>
       unat (n_examples (read_index demo_env
         (val_file_name test_mismatch_command @ ''.index''))) div 20000 + 1 < 2 ^ 32)"
    by (simp add: test_mismatch_command_def demo_command_def demo_env_def demo_index_def
        entropy_ok_def mask_sizes_ok_def)
  have hu: "test_file_name val_test_mismatch_command \<noteq> [] \<and>
      pred_file_name val_test_mismatch_command \<noteq> [] \<and>
      n_index_bits (read_index demo_env
        (test_file_name val_test_mismatch_command @ ''.index'')) \<noteq>
      n_index_bits (read_index demo_env
        (train_file_name val_test_mismatch_command @ ''.index''))"
    by (simp add: val_test_mismatch_command_def demo_command_def demo_env_def demo_index_def)
  have hd: "entropy_ok demo_env \<and> mask_sizes_ok demo_env \<and>
      unat (n_examples (read_index demo_env
        (train_file_name val_test_mismatch_command @ ''.index''))) + 20000 \<le> 2 ^ 64 \<and>
      (val_file_name val_test_mismatch_command = [] \<or>
       n_index_bits (read_index demo_env
         (val_file_name val_test_mismatch_command @ ''.index'')) =
         n_index_bits (read_index demo_env
           (train_file_name val_test_mismatch_command @ ''.index'')) \<and>
       unat (n_examples (read_index demo_env
         (val_file_name val_test_mismatch_command @ ''.index''))) + 20000 \<le> 2 ^ 64 \<and>
       unat (n_examples (read_index demo_env
         (val_file_name val_test_mismatch_command @ ''.index''))) div 20000 + 1 < 2 ^ 32)"
    by (simp add: val_test_mismatch_command_def demo_command_def demo_env_def demo_index_def
        entropy_ok_def mask_sizes_ok_def)
  obtain w1 where w1: "run demo_env val_mismatch_command demo_sys =
        Throws (RuntimeError ''Mismatching index bits in train and val'') w1"
      "trace w1 = trace demo_sys @
         [EvLoadIndex (train_file_name val_mismatch_command @ ''.index''),
          EvLoadIndex (val_file_name val_mismatch_command @ ''.index'')]"
    using v hv by blast
  obtain w2 evs where w2: "run demo_env test_mismatch_command demo_sys =
        Throws (RuntimeError ''Mismatching index bits in train and test'') w2"
      "trace w2 = trace demo_sys @ evs @
         [EvLoadIndex (test_file_name test_mismatch_command @ ''.index'')]"
    using t ht hc by blast
  obtain evs' where e': "trace w2 = trace demo_sys @ evs'" "list_all training_event evs'"
    using t ht w2(1) by blast
  obtain w3 evs3 where w3: "run demo_env val_test_mismatch_command demo_sys =
        Throws (RuntimeError ''Mismatching index bits in train and test'') w3"
      "trace w3 = trace demo_sys @ evs3 @
         [EvLoadIndex (test_file_name val_test_mismatch_command @ ''.index'')]"
      "train_marks evs3 = replicate (n_epochs val_test_mismatch_command) 1"
    using u hu hd by blast
  obtain evs3' where e3: "trace w3 = trace demo_sys @ evs3'" "list_all training_event evs3'"
    using u hu w3(1) by blast
  have "thrown (run demo_env val_mismatch_command demo_sys) =
     Some (RuntimeError ''Mismatching index bits in train and val'')"
    unfolding w1(1) thrown_def by simp
  moreover have "final_trace (run demo_env val_mismatch_command demo_sys) =
     [EvLoadIndex ''train.index'', EvLoadIndex ''val18.index'']"
    unfolding w1(1) final_trace_def
    by (simp add: w1(2) demo_sys_def val_mismatch_command_def demo_command_def)
  moreover have "thrown (run demo_env test_mismatch_command demo_sys) =
     Some (RuntimeError ''Mismatching index bits in train and test'')"
    unfolding w2(1) thrown_def by simp
  moreover have "list_all training_event
      (final_trace (run demo_env test_mismatch_command demo_sys))"
    using e' unfolding w2(1) final_trace_def by (simp add: demo_sys_def)
  moreover have "last (final_trace (run demo_env test_mismatch_command demo_sys)) =
     EvLoadIndex ''test18.index''"
    unfolding w2(1) final_trace_def
    by (simp add: w2(2) demo_sys_def test_mismatch_command_def demo_command_def)
  moreover have "thrown (run demo_env val_test_mismatch_command demo_sys) =
     Some (RuntimeError ''Mismatching index bits in train and test'')"
    unfolding w3(1) thrown_def by simp
  moreover have "list_all training_event
      (final_trace (run demo_env val_test_mismatch_command demo_sys))"
    using e3 unfolding w3(1) final_trace_def by (simp add: demo_sys_def)
  moreover have "train_marks (final_trace (run demo_env val_test_mismatch_command demo_sys)) =
     [1, 1]"
    unfolding w3(1) final_trace_def
    by (simp add: w3(2,3) demo_sys_def val_test_mismatch_command_def demo_command_def
        train_marks_append train_marks_Cons train_marks_Nil train_mark_def numeral_2_eq_2)
  moreover have "last (final_trace (run demo_env val_test_mismatch_command demo_sys)) =
     EvLoadIndex ''test18.index''"
    unfolding w3(1) final_trace_def
    by (simp add: w3(2) demo_sys_def val_test_mismatch_command_def demo_command_def)
  ultimately show ?thesis by blast
qed

theorem test_mismatch_aborts_after_training:
  "thrown (run demo_env test_mismatch_command demo_sys) =
     Some (RuntimeError ''Mismatching index bits in train and test'') \<and>
   train_marks (final_trace (run demo_env test_mismatch_command demo_sys)) = [1] \<and>
   stepped (final_trace (run demo_env test_mismatch_command demo_sys)) = [0, 1, 2] \<and>
   length (filter (\<lambda>ev. case ev of EvReadBatch f a b \<Rightarrow> True | _ \<Rightarrow> False)
     (final_trace (run demo_env test_mismatch_command demo_sys))) = 1"
  by (simp add: demo_run_simps test_mismatch_command_def demo_command_def
      thrown_def final_trace_def train_marks_def train_mark_def stepped_def step_index_def)

end
